theory Spec2Isabelle
  imports Complex_Main
begin

section \<open>The Q-learning model (the learning half of js/index.js)\<close>

text \<open>
  JavaScript numbers are IEEE doubles. The components of a state are integers by
  construction (\<open>nextStep\<close> builds them with \<open>Math.round\<close> and from integer pixel
  coordinates), so they are modelled as \<open>int\<close>. Rewards and Q-values are modelled as
  \<open>real\<close>: the arithmetic below is the source's arithmetic read over the reals, with
  \<open>alpha = 0.1\<close> and \<open>gamma = 0.8\<close> taken as the exact fractions.
\<close>

datatype js_error = TypeError | SyntaxError

text \<open>\<open>actionSet = { STAY : 0, JUMP : 1 }\<close>\<close>

datatype action = STAY | JUMP

text \<open>The state object \<open>{ speedY, tubeX, diffY }\<close> built by \<open>nextStep\<close>.\<close>

record state =
  speedY :: int
  tubeX :: int
  diffY :: int

text \<open>An entry \<open>{ env, action }\<close> of the frame buffer.\<close>

record frame =
  env :: state
  action :: action

text \<open>
  The key of the Q-table is the array \<open>[state.diffY, state.speedY, state.tubeX, action]\<close>
  used as a property name. Two such arrays of integers name the same property exactly
  when they are equal component by component, so the key is modelled as the tuple.
\<close>

type_synonym qkey = "int \<times> int \<times> int \<times> action"

type_synonym qtable = "qkey \<rightharpoonup> real"

definition qconfig :: "state \<Rightarrow> action \<Rightarrow> qkey" where
  "qconfig st a = (diffY st, speedY st, tubeX st, a)"

definition gamma :: real where
  "gamma = 8 / 10"

definition alpha :: real where
  "alpha = 1 / 10"

definition getQ :: "qtable \<Rightarrow> state \<Rightarrow> action \<Rightarrow> real" where
  "getQ Q st a =
     (let config = qconfig st a in
      case Q config of
        None \<Rightarrow> 0
      | Some v \<Rightarrow> v)"

definition setQ :: "qtable \<Rightarrow> state \<Rightarrow> action \<Rightarrow> real \<Rightarrow> qtable" where
  "setQ Q st a reward =
     (let config = qconfig st a;
          Q1 = (case Q config of None \<Rightarrow> Q(config \<mapsto> 0) | Some v \<Rightarrow> Q)
      in case Q1 config of
           None \<Rightarrow> Q1
         | Some v \<Rightarrow> Q1(config \<mapsto> v + reward))"

subsection \<open>Arrays\<close>

text \<open>
  Reading \<open>a[i]\<close> outside the array gives \<open>undefined\<close>, and reading a property of
  \<open>undefined\<close> throws a \<open>TypeError\<close>; \<open>js_index\<close> returns \<open>None\<close> there.
  \<open>a.slice(start)\<close> copies from \<open>start\<close> to the end, a negative \<open>start\<close> counting
  from the end.
\<close>

definition js_index :: "'a list \<Rightarrow> int \<Rightarrow> 'a option" where
  "js_index xs i = (if 0 \<le> i \<and> i < int (length xs) then Some (xs ! nat i) else None)"

definition slice :: "'a list \<Rightarrow> int \<Rightarrow> 'a list" where
  "slice xs start =
     (let n = int (length xs);
          k = (if start < 0 then max (n + start) 0 else min start n)
      in drop (nat k) xs)"

subsection \<open>The globals of the agent\<close>

record agent =
  Q_table :: qtable
  frameBuffer :: "frame list"
  episodeFrameCount :: nat

definition minFramSize :: nat where
  "minFramSize = 5"

definition theta :: int where
  "theta = 1"

subsection \<open>rewardTheBird\<close>

text \<open>
  The \<open>for\<close> loop of \<open>rewardTheBird\<close>: \<open>i\<close> counts down from
  \<open>frameBuffer.length - 2\<close> and may become negative, \<open>frameSize\<close> counts the
  iterations left.
\<close>

function rewardTheBird_loop ::
  "real \<Rightarrow> bool \<Rightarrow> frame list \<Rightarrow> int \<Rightarrow> nat \<Rightarrow> qtable \<Rightarrow> js_error + qtable" where
  "rewardTheBird_loop reward wasSuccessful fb i frameSize Q =
     (if i \<ge> 0 \<and> frameSize > 0 then
        (case js_index fb i of
           None \<Rightarrow> Inl TypeError
         | Some config \<Rightarrow>
             (let st = env config;
                  act = action config;
                  rewardForState0 = reward - \<bar>real_of_int (diffY st)\<bar>;
                  rewardForState =
                    (if \<not> wasSuccessful then
                       (if diffY st \<ge> theta \<and> act = JUMP then - rewardForState0
                        else if diffY st \<le> - theta \<and> act = STAY then - rewardForState0
                        else 1 / 2)
                     else rewardForState0)
              in case js_index fb (i + 1) of
                   None \<Rightarrow> Inl TypeError
                 | Some nxt \<Rightarrow>
                     (let futureState = env nxt;
                          optimalFutureValue =
                            max (getQ Q futureState STAY) (getQ Q futureState JUMP);
                          updateValue =
                            alpha * (rewardForState + gamma * optimalFutureValue - getQ Q st act)
                      in rewardTheBird_loop reward wasSuccessful fb (i - 1) (frameSize - 1)
                           (setQ Q st act updateValue))))
      else Inr Q)"
  by pat_completeness auto
termination
  by (relation "measure (\<lambda>(reward, wasSuccessful, fb, i, frameSize, Q). frameSize)") auto

declare rewardTheBird_loop.simps [simp del]

definition rewardTheBird :: "real \<Rightarrow> bool \<Rightarrow> 'a agent_scheme \<Rightarrow> js_error + 'a agent_scheme" where
  "rewardTheBird reward wasSuccessful w =
     (let frameSize = max minFramSize (episodeFrameCount w) in
      case rewardTheBird_loop reward wasSuccessful (frameBuffer w)
             (int (length (frameBuffer w)) - 2) frameSize (Q_table w) of
        Inl e \<Rightarrow> Inl e
      | Inr Q \<Rightarrow>
          Inr (w\<lparr>Q_table := Q,
                 frameBuffer :=
                   slice (frameBuffer w)
                     (max (int (length (frameBuffer w)) - int minFramSize) 1),
                 episodeFrameCount := 0\<rparr>))"

subsection \<open>getAction\<close>

text \<open>
  \<open>Math.random()\<close> is an input: \<open>getAction\<close> calls it twice on every path that
  draws a second number, so the first draw \<open>r1\<close> decides the exploration override and
  the second draw \<open>r2\<close> the jump inside the override or the tie-break. A draw is a
  number in \<open>[0, 1)\<close>. \<open>Math.ceil\<close> is the ceiling; \<open>%\<close> on non-negative integer
  values is \<open>mod\<close>; on other non-negative doubles \<open>x % y\<close> is
  \<open>x - y * trunc (x / y)\<close>, written \<open>js_rem\<close>.
\<close>

definition js_rem :: "real \<Rightarrow> real \<Rightarrow> real" where
  "js_rem a b =
     a - b * (if a / b \<ge> 0 then of_int \<lfloor>a / b\<rfloor> else of_int \<lceil>a / b\<rceil>)"

definition takeRandomDecision :: "real \<Rightarrow> int" where
  "takeRandomDecision r = \<lceil>r * 100000\<rceil> mod 90001"

definition getAction :: "qtable \<Rightarrow> real \<Rightarrow> real \<Rightarrow> state \<Rightarrow> action" where
  "getAction Q r1 r2 st =
     (if takeRandomDecision r1 = 0 then
        (let shouldJump = (js_rem (r2 * 100) 4 = 0) in
         if shouldJump then JUMP else STAY)
      else
        (let rewardForStay = getQ Q st STAY;
             rewardForJump = getQ Q st JUMP
         in if rewardForStay > rewardForJump then STAY
            else if rewardForStay < rewardForJump then JUMP
            else (let shouldJump = (\<lceil>r2 * 100\<rceil> mod 25 = 0) in
                  if shouldJump then JUMP else STAY)))"

section \<open>The game (the simulation half of js/index.js)\<close>

text \<open>
  Only the variables that the game logic reads are kept; the canvases, the sprite
  frame counter and the scrolling ground are rendering state and are left out.
  \<open>tubes\<close> always holds the two tube objects that \<open>startGame\<close> writes at the
  indices 0 and 1, and is modelled as a pair. \<open>targetTubeIndex\<close> is declared without
  a value, so it is \<open>undefined\<close> (here \<open>None\<close>) until \<open>nextStep\<close> first assigns it.
  \<open>targetTube\<close> refers to one of the two tube objects and is modelled by its index.
  \<open>birdX\<close> is never assigned after its declaration.
\<close>

datatype game_state = HOME | GAME | GAME_OVER | HI_SCORE

record tube =
  tube_x :: int
  tube_y :: int

record game = agent +
  gameState :: game_state
  score :: nat
  hiScore :: nat
  birdY :: int
  birdYSpeed :: real
  tubes :: "tube \<times> tube"
  activeTube :: "nat option"
  targetTubeIndex :: "int option"
  targetTube :: "nat option"
  trials :: nat
  isEnvironmentStatic :: bool

definition birdX :: int where
  "birdX = 5"

definition bgLoc_height :: int where
  "bgLoc_height = 32"

definition tubeLoc_height :: int where
  "tubeLoc_height = 44"

text \<open>\<open>Math.round\<close> rounds to the nearest integer, a half upwards.\<close>

definition js_round :: "real \<Rightarrow> int" where
  "js_round v = \<lfloor>v + 1 / 2\<rfloor>"

text \<open>
  What a tick of the event loop takes from outside the program: the verdict of the
  pixel comparison in \<open>checkCollision\<close> and the values returned by the calls of
  \<open>Math.random()\<close>.
\<close>

record inputs =
  collided :: bool
  rnd_explore :: real
  rnd_jump :: real
  rnd_tube0 :: real
  rnd_tube1 :: real

definition setTubeY :: "bool \<Rightarrow> real \<Rightarrow> tube \<Rightarrow> tube" where
  "setTubeY static r t =
     (if static then t\<lparr>tube_y := \<lfloor>(639 / 1000) * real_of_int (bgLoc_height - tubeLoc_height)\<rfloor>\<rparr>
      else t\<lparr>tube_y := \<lfloor>r * real_of_int (bgLoc_height - tubeLoc_height + 2)\<rfloor>\<rparr>)"

definition startGame :: "real \<Rightarrow> real \<Rightarrow> game \<Rightarrow> game" where
  "startGame r0 r1 g =
     g\<lparr>gameState := HOME, birdYSpeed := 0, score := 0, birdY := 14,
       tubes := (setTubeY (isEnvironmentStatic g) r0 \<lparr>tube_x = js_round (48 + 0 * 19), tube_y = 0\<rparr>,
                 setTubeY (isEnvironmentStatic g) r1 \<lparr>tube_x = js_round (48 + 1 * 19), tube_y = 0\<rparr>)\<rparr>"

definition triggerGameOver :: "game \<Rightarrow> js_error + game" where
  "triggerGameOver g =
     (let reward = 100 in
      case rewardTheBird reward False g of
        Inl e \<Rightarrow> Inl e
      | Inr g1 \<Rightarrow>
          Inr (g1\<lparr>targetTubeIndex := Some (- 1), episodeFrameCount := 0,
                  trials := trials g1 + 1\<rparr>))"

definition nextStep :: "real \<Rightarrow> real \<Rightarrow> game \<Rightarrow> js_error + game" where
  "nextStep r1 r2 g =
     (if gameState g \<noteq> GAME then Inr g
      else
        (case
           (if birdX < tube_x (fst (tubes g)) + 3 \<and>
               (tube_x (fst (tubes g)) < tube_x (snd (tubes g)) \<or>
                tube_x (snd (tubes g)) + 3 < birdX)
            then
              (case (if targetTubeIndex g = Some 1
                     then rewardTheBird 5 True (g\<lparr>targetTube := Some 0\<rparr>)
                     else Inr (g\<lparr>targetTube := Some 0\<rparr>)) of
                 Inl e \<Rightarrow> Inl e
               | Inr g1 \<Rightarrow> Inr (fst (tubes g1), g1\<lparr>targetTubeIndex := Some 0\<rparr>))
            else
              (case (if targetTubeIndex g = Some 0
                     then rewardTheBird 5 True (g\<lparr>targetTube := Some 1\<rparr>)
                     else Inr (g\<lparr>targetTube := Some 1\<rparr>)) of
                 Inl e \<Rightarrow> Inl e
               | Inr g1 \<Rightarrow> Inr (snd (tubes g1), g1\<lparr>targetTubeIndex := Some 1\<rparr>))) of
           Inl e \<Rightarrow> Inl e
         | Inr (target, g2) \<Rightarrow>
             if tube_x target - birdX > 28 then Inr g2
             else
               (let st = \<lparr>speedY = js_round (birdYSpeed g2 * 100),
                          tubeX = tube_x target,
                          diffY = (tube_y target + 17 + 6) - (birdY g2 + 1)\<rparr>;
                    actionToBeTaken = getAction (Q_table g2) r1 r2 st;
                    config = \<lparr>env = st, action = actionToBeTaken\<rparr>;
                    g3 = g2\<lparr>frameBuffer := frameBuffer g2 @ [config],
                            episodeFrameCount := episodeFrameCount g2 + 1\<rparr>
                in if actionToBeTaken = JUMP then Inr (g3\<lparr>birdYSpeed := - (14 / 10)\<rparr>)
                   else Inr g3)))"

definition renderTubes :: "real \<Rightarrow> real \<Rightarrow> game \<Rightarrow> game" where
  "renderTubes r0 r1 g =
     (let move = (\<lambda>r t.
            (let t1 = t\<lparr>tube_x := tube_x t - 1\<rparr> in
             if tube_x t1 \<le> - 6 then setTubeY (isEnvironmentStatic g) r (t1\<lparr>tube_x := 32\<rparr>)
             else t1))
      in g\<lparr>activeTube :=
             Some (if tube_x (fst (tubes g)) < tube_x (snd (tubes g)) then 0 else 1),
           tubes := (move r0 (fst (tubes g)), move r1 (snd (tubes g)))\<rparr>)"

definition updateBirdGame :: "game \<Rightarrow> game" where
  "updateBirdGame g =
     (let g1 = g\<lparr>birdY := js_round (real_of_int (birdY g) + birdYSpeed g)\<rparr>;
          g2 = g1\<lparr>birdYSpeed := birdYSpeed g1 + 25 / 100\<rparr>;
          g3 = (if birdY g2 < 0 then g2\<lparr>birdY := 0, birdYSpeed := 0\<rparr> else g2)
      in if birdY g3 + 5 > bgLoc_height then g3\<lparr>birdY := 28, birdYSpeed := 0\<rparr> else g3)"

definition checkCollision :: "bool \<Rightarrow> game \<Rightarrow> js_error + game" where
  "checkCollision hit g =
     (case activeTube g of
        None \<Rightarrow> Inl TypeError
      | Some k \<Rightarrow>
          (let t = (if k = 0 then fst (tubes g) else snd (tubes g));
               g1 = (if birdX = tube_x t + 6 then g\<lparr>score := score g + 1\<rparr> else g)
           in if hit then
                triggerGameOver
                  (g1\<lparr>gameState := GAME_OVER,
                      hiScore := (if score g1 > hiScore g1 then score g1 + 0 else hiScore g1)\<rparr>)
              else Inr g1))"

definition renderGame :: "inputs \<Rightarrow> game \<Rightarrow> js_error + game" where
  "renderGame inp g =
     checkCollision (collided inp) (updateBirdGame (renderTubes (rnd_tube0 inp) (rnd_tube1 inp) g))"

definition renderGameOver :: "game \<Rightarrow> game" where
  "renderGameOver g = g\<lparr>score := score g + 1\<rparr>"

definition loop :: "inputs \<Rightarrow> game \<Rightarrow> js_error + game" where
  "loop inp g =
     (case gameState g of
        HOME \<Rightarrow> Inr g
      | GAME \<Rightarrow>
          (case nextStep (rnd_explore inp) (rnd_jump inp) g of
             Inl e \<Rightarrow> Inl e
           | Inr g1 \<Rightarrow> renderGame inp g1)
      | GAME_OVER \<Rightarrow>
          Inr ((startGame (rnd_tube0 inp) (rnd_tube1 inp) (renderGameOver g))\<lparr>gameState := GAME\<rparr>)
      | HI_SCORE \<Rightarrow> Inr g)"

definition handleUserInteraction :: "real \<Rightarrow> real \<Rightarrow> game \<Rightarrow> game" where
  "handleUserInteraction r0 r1 g =
     (case gameState g of
        HOME \<Rightarrow> g\<lparr>gameState := GAME\<rparr>
      | GAME \<Rightarrow> g\<lparr>birdYSpeed := - (14 / 10)\<rparr>
      | HI_SCORE \<Rightarrow> startGame r0 r1 g
      | GAME_OVER \<Rightarrow> g)"

definition environmentChange :: "string \<Rightarrow> game \<Rightarrow> game" where
  "environmentChange curEnv g =
     (if curEnv = ''Static'' then g\<lparr>isEnvironmentStatic := True\<rparr>
      else g\<lparr>isEnvironmentStatic := False\<rparr>)"

text \<open>
  The page after \<open>initGame\<close>: the declarations of both halves have run and
  \<open>startGame\<close> has placed the tubes.
\<close>

definition initGame :: game where
  "initGame =
     startGame 0 0
       \<lparr>Q_table = Map.empty, frameBuffer = [], episodeFrameCount = 0,
        gameState = HOME, score = 0, hiScore = 0, birdY = 0, birdYSpeed = 0,
        tubes = (\<lparr>tube_x = 0, tube_y = 0\<rparr>, \<lparr>tube_x = 0, tube_y = 0\<rparr>),
        activeTube = None, targetTubeIndex = None, targetTube = None, trials = 0,
        isEnvironmentStatic = True\<rparr>"

definition draw :: "real \<Rightarrow> bool" where
  "draw r \<longleftrightarrow> 0 \<le> r \<and> r < 1"

text \<open>
  The states the page can be in: the event loop ticks, the player presses a key or
  touches the canvas, the environment selector changes, or a model is loaded into
  \<open>Q_table\<close>.
\<close>

inductive reachable :: "game \<Rightarrow> bool" where
  reach_init: "reachable initGame"
| reach_tick:
    "reachable g \<Longrightarrow> draw (rnd_explore inp) \<Longrightarrow> draw (rnd_jump inp) \<Longrightarrow>
     draw (rnd_tube0 inp) \<Longrightarrow> draw (rnd_tube1 inp) \<Longrightarrow>
     loop inp g = Inr g' \<Longrightarrow> reachable g'"
| reach_key:
    "reachable g \<Longrightarrow> draw r0 \<Longrightarrow> draw r1 \<Longrightarrow> reachable (handleUserInteraction r0 r1 g)"
| reach_env: "reachable g \<Longrightarrow> reachable (environmentChange curEnv g)"
| reach_model: "reachable g \<Longrightarrow> reachable (g\<lparr>Q_table := Q\<rparr>)"

section \<open>The credit assignment as the specification words it\<close>

text \<open>
  The reward of a visited entry, the temporal-difference step applied to it and the
  positions that one call visits, written down from the description of the credit
  assignment and compared with \<open>rewardTheBird\<close> below. \<open>claimed_shaping\<close> is the
  reading in which the deviation has to exceed the tolerance.
\<close>

definition shaped_reward :: "real \<Rightarrow> bool \<Rightarrow> state \<Rightarrow> action \<Rightarrow> real" where
  "shaped_reward reward wasSuccessful st a =
     (if wasSuccessful then reward - \<bar>real_of_int (diffY st)\<bar>
      else if diffY st \<ge> 1 \<and> a = JUMP then - (reward - \<bar>real_of_int (diffY st)\<bar>)
      else if diffY st \<le> - 1 \<and> a = STAY then - (reward - \<bar>real_of_int (diffY st)\<bar>)
      else 1 / 2)"

definition td_delta :: "real \<Rightarrow> bool \<Rightarrow> qtable \<Rightarrow> frame \<Rightarrow> frame \<Rightarrow> real" where
  "td_delta reward wasSuccessful Q cur nxt =
     alpha * (shaped_reward reward wasSuccessful (env cur) (action cur)
              + gamma * max (getQ Q (env nxt) STAY) (getQ Q (env nxt) JUMP)
              - getQ Q (env cur) (action cur))"

definition td_update :: "real \<Rightarrow> bool \<Rightarrow> frame list \<Rightarrow> qtable \<Rightarrow> nat \<Rightarrow> qtable" where
  "td_update reward wasSuccessful fb Q i =
     setQ Q (env (fb ! i)) (action (fb ! i))
       (td_delta reward wasSuccessful Q (fb ! i) (fb ! (i + 1)))"

definition visited :: "nat \<Rightarrow> nat \<Rightarrow> nat list" where
  "visited n steps = map (\<lambda>j. n - 2 - j) [0..<min (n - 1) (max 5 steps)]"

definition claimed_shaping :: "real \<Rightarrow> state \<Rightarrow> action \<Rightarrow> real" where
  "claimed_shaping reward st a =
     (if diffY st > theta \<and> a = JUMP then - (reward - \<bar>real_of_int (diffY st)\<bar>)
      else if diffY st < - theta \<and> a = STAY then - (reward - \<bar>real_of_int (diffY st)\<bar>)
      else 1 / 2)"

section \<open>Concrete states and buffers\<close>

text \<open>
  States and agents on which the theorems below are evaluated: \<open>agent3\<close> is the
  three-entry episode \<open>[(S1, Stay), (S2, Jump), (S3, Stay)]\<close>, \<open>agent1\<close> holds a
  single entry, \<open>agent5\<close> exactly five, and \<open>agentA\<close> starts with a Jump taken at
  a deviation equal to the tolerance.
\<close>

definition st1 :: state where "st1 = \<lparr>speedY = 10, tubeX = 20, diffY = 2\<rparr>"

definition st2 :: state where "st2 = \<lparr>speedY = 35, tubeX = 19, diffY = - 1\<rparr>"

definition st3 :: state where "st3 = \<lparr>speedY = - 140, tubeX = 18, diffY = 0\<rparr>"

definition stA :: state where "stA = \<lparr>speedY = 60, tubeX = 9, diffY = 1\<rparr>"

definition agent3 :: agent where
  "agent3 = \<lparr>Q_table = Map.empty,
      frameBuffer = [\<lparr>env = st1, action = STAY\<rparr>, \<lparr>env = st2, action = JUMP\<rparr>,
                     \<lparr>env = st3, action = STAY\<rparr>],
      episodeFrameCount = 3\<rparr>"

definition agent1 :: agent where
  "agent1 = \<lparr>Q_table = [qconfig st3 STAY \<mapsto> 7], frameBuffer = [\<lparr>env = st3, action = STAY\<rparr>],
      episodeFrameCount = 1\<rparr>"

definition agent5 :: agent where
  "agent5 = \<lparr>Q_table = Map.empty,
      frameBuffer = [\<lparr>env = st1, action = STAY\<rparr>, \<lparr>env = st2, action = JUMP\<rparr>,
                     \<lparr>env = st3, action = STAY\<rparr>, \<lparr>env = st1, action = JUMP\<rparr>,
                     \<lparr>env = st2, action = STAY\<rparr>],
      episodeFrameCount = 5\<rparr>"

definition agentA :: agent where
  "agentA = \<lparr>Q_table = Map.empty,
      frameBuffer = [\<lparr>env = stA, action = JUMP\<rparr>, \<lparr>env = st3, action = STAY\<rparr>],
      episodeFrameCount = 2\<rparr>"

section \<open>The tube that nextStep targets, and what every reachable game satisfies\<close>

text \<open>
  \<open>target_of\<close> and \<open>target_index_of\<close> repeat the test with which \<open>nextStep\<close>
  picks its target tube. \<open>game_inv\<close> collects what the moves of the tubes keep true:
  the two tubes stay 19 pixels apart inside the range that \<open>startGame\<close> and
  \<open>renderTubes\<close> allow, the high-score screen is never entered, a finished game has
  its target index reset, and while the first tube is still far to the right the
  target index is not 1. \<open>started\<close> is the game right after the first key press.
\<close>

definition target_of :: "game \<Rightarrow> tube" where
  "target_of g =
     (if birdX < tube_x (fst (tubes g)) + 3 \<and>
         (tube_x (fst (tubes g)) < tube_x (snd (tubes g)) \<or>
          tube_x (snd (tubes g)) + 3 < birdX)
      then fst (tubes g) else snd (tubes g))"

definition target_index_of :: "game \<Rightarrow> nat" where
  "target_index_of g =
     (if birdX < tube_x (fst (tubes g)) + 3 \<and>
         (tube_x (fst (tubes g)) < tube_x (snd (tubes g)) \<or>
          tube_x (snd (tubes g)) + 3 < birdX)
      then 0 else 1)"

definition game_inv :: "game \<Rightarrow> bool" where
  "game_inv g \<longleftrightarrow>
     gameState g \<noteq> HI_SCORE \<and>
     (gameState g = GAME_OVER \<longrightarrow> targetTubeIndex g = Some (- 1)) \<and>
     ((tube_x (snd (tubes g)) = tube_x (fst (tubes g)) + 19 \<and>
       - 5 \<le> tube_x (fst (tubes g)) \<and> tube_x (fst (tubes g)) \<le> 48) \<or>
      (tube_x (fst (tubes g)) = tube_x (snd (tubes g)) + 19 \<and>
       - 5 \<le> tube_x (snd (tubes g)) \<and> tube_x (snd (tubes g)) \<le> 13)) \<and>
     (34 \<le> tube_x (fst (tubes g)) \<longrightarrow> targetTubeIndex g \<noteq> Some 1)"

definition started :: game where
  "started = handleUserInteraction 0 0 initGame"

section \<open>How often a draw gives an outcome\<close>

text \<open>
  The probability of an outcome of one call of \<open>Math.random()\<close> is taken as a
  long-run frequency: \<open>draws_in E N\<close> counts for how many of the \<open>N\<close> equally
  spaced draws \<open>0, 1/N, ..., (N-1)/N\<close> the outcome \<open>E\<close> happens, \<open>frequency E N\<close>
  is their share, and the probability is the limit of the share as the draws get
  finer. \<open>between a b\<close> is the half-open interval that a value of \<open>Math.ceil\<close>
  singles out. The three outcomes are the tests that \<open>getAction\<close> makes on a draw:
  \<open>exploring\<close> is \<open>takeRandomDecision == 0\<close>, \<open>override_jumps\<close> is \<open>shouldJump\<close>
  inside the override and \<open>tie_jumps\<close> is \<open>shouldJump\<close> of the tie-break.
\<close>

definition draws_in :: "(real \<Rightarrow> bool) \<Rightarrow> nat \<Rightarrow> nat" where
  "draws_in E N = length (filter (\<lambda>k. E (real k / real N)) [0..<N])"

definition frequency :: "(real \<Rightarrow> bool) \<Rightarrow> nat \<Rightarrow> real" where
  "frequency E N = real (draws_in E N) / real N"

definition between :: "real \<Rightarrow> real \<Rightarrow> real \<Rightarrow> bool" where
  "between a b r \<longleftrightarrow> a < r \<and> r \<le> b"

definition exploring :: "real \<Rightarrow> bool" where
  "exploring r \<longleftrightarrow> takeRandomDecision r = 0"

definition override_jumps :: "real \<Rightarrow> bool" where
  "override_jumps r \<longleftrightarrow> js_rem (r * 100) 4 = 0"

definition tie_jumps :: "real \<Rightarrow> bool" where
  "tie_jumps r \<longleftrightarrow> \<lceil>r * 100\<rceil> mod 25 = 0"

section \<open>Saving and loading the model (js/config.js)\<close>

text \<open>
  \<open>config.js\<close> sees \<open>Q_table\<close> as whatever \<open>JSON.parse\<close> returned last: a table,
  \<open>null\<close> or another JSON value (field \<open>model\<close>). \<open>localStorage.getItem\<close> gives
  \<open>null\<close> (here \<open>None\<close>) for a key that was never stored. \<open>JSON.stringify\<close> and the
  parsing of a text by \<open>JSON.parse\<close> belong to the browser and are parameters
  here (the section on the JSON text of a Q-table models them for tables);
  \<open>JSON.parse(null)\<close> converts its argument to the text \<open>null\<close> and returns
  \<open>null\<close>, a malformed text makes it throw a \<open>SyntaxError\<close>. The file defines
  \<open>loadModel\<close> twice: \<open>loadModel\<close> is the definition that tests for a stored
  document first (lines 36-43), \<open>loadModel_2\<close> the one that does not (lines
  98-101). \<open>alerts\<close> collects the messages shown with \<open>alert\<close>.
\<close>

datatype json = JSNull | JSTable qtable | JSOther

record page =
  model :: json
  localStorage :: "string \<rightharpoonup> string"
  alerts :: "string list"

definition JSON_parse :: "(string \<Rightarrow> js_error + json) \<Rightarrow> string option \<Rightarrow> js_error + json" where
  "JSON_parse parse_text v =
     (case v of
        None \<Rightarrow> Inr JSNull
      | Some text \<Rightarrow> parse_text text)"

definition saveModel :: "(json \<Rightarrow> string) \<Rightarrow> page \<Rightarrow> page" where
  "saveModel stringify p =
     p\<lparr>localStorage := (localStorage p)(''flappybird-qtable'' \<mapsto> stringify (model p)),
       alerts := alerts p @ [''Model was saved successfully!'']\<rparr>"

definition loadModel :: "(string \<Rightarrow> js_error + json) \<Rightarrow> page \<Rightarrow> js_error + page" where
  "loadModel parse_text p =
     (if localStorage p ''flappybird-qtable'' \<noteq> None then
        (case JSON_parse parse_text (localStorage p ''flappybird-qtable'') of
           Inl e \<Rightarrow> Inl e
         | Inr v \<Rightarrow>
             Inr (p\<lparr>model := v, alerts := alerts p @ [''Model was loaded successfully!'']\<rparr>))
      else Inr (p\<lparr>alerts := alerts p @ [''No saved model found in local storage'']\<rparr>))"

definition loadModel_2 :: "(string \<Rightarrow> js_error + json) \<Rightarrow> page \<Rightarrow> js_error + page" where
  "loadModel_2 parse_text p =
     (case JSON_parse parse_text (localStorage p ''flappybird-qtable'') of
        Inl e \<Rightarrow> Inl e
      | Inr v \<Rightarrow>
          Inr (p\<lparr>model := v, alerts := alerts p @ [''Model was loaded successfully!'']\<rparr>))"

definition fresh_page :: page where
  "fresh_page =
     \<lparr>model = JSTable [qconfig st1 STAY \<mapsto> 332 / 1000], localStorage = Map.empty, alerts = []\<rparr>"

section \<open>The calls of rewardTheBird that the game makes\<close>

text \<open>
  \<open>rewardTheBird\<close> is called from two places. \<open>nextStep\<close> calls it when the index
  of the target tube flips, which is how the program notices that the bird has passed
  a tube (\<open>flips\<close>: the state is in play and the recorded index is the other one than
  the index \<open>nextStep\<close> is about to choose). \<open>triggerGameOver\<close> calls it when
  \<open>checkCollision\<close> finds a collision, later in the same tick.

  \<open>checkCollision\<close> compares the alpha channel of the 5 x 3 pixels at
  \<open>(birdX, birdY)\<close>, \<open>birdX = 5\<close>, on the render canvas and on the collision
  canvas. \<open>renderGame\<close> clears both and then draws the two tubes and the bird on the
  collision canvas (composite operation \<open>xor\<close>), and the score, the ground, the two
  tubes and the bird on the render canvas (\<open>destination-over\<close>). The ground is the
  row \<open>y = 31\<close> and the bird's rows end at \<open>birdY + 2 \<le> 30\<close>. A digit of the
  score is 5 pixels wide at \<open>x = 25 - 5 * index\<close>, so only the fifth digit, of a
  score of 10000 or more, reaches the columns 5 to 9 of the bird. A tube is 6 pixels
  wide, so it reaches these columns only with its \<open>x\<close> between 0 and 9. When none of
  them reaches the rectangle, both canvases hold the sprite of the bird alone there and
  the comparison finds no difference. \<open>can_collide\<close> is this necessary condition
  on the state that \<open>renderTubes\<close> leaves, \<open>may_collide\<close> states it for the
  tick that starts in \<open>g\<close>, and \<open>played\<close> are the states that the page reaches
  with ticks whose verdict respects it. (\<open>reachable\<close> above leaves the verdict
  free.)
\<close>

definition flips :: "game \<Rightarrow> bool" where
  "flips g \<longleftrightarrow>
     gameState g = GAME \<and>
     targetTubeIndex g = Some (if target_index_of g = 0 then 1 else 0)"

definition can_collide :: "game \<Rightarrow> bool" where
  "can_collide g \<longleftrightarrow>
     (0 \<le> tube_x (fst (tubes g)) \<and> tube_x (fst (tubes g)) \<le> 9) \<or>
     (0 \<le> tube_x (snd (tubes g)) \<and> tube_x (snd (tubes g)) \<le> 9) \<or>
     10000 \<le> score g"

definition may_collide :: "inputs \<Rightarrow> game \<Rightarrow> bool" where
  "may_collide inp g =
     (case nextStep (rnd_explore inp) (rnd_jump inp) g of
        Inl e \<Rightarrow> True
      | Inr g1 \<Rightarrow> can_collide (renderTubes (rnd_tube0 inp) (rnd_tube1 inp) g1))"

inductive played :: "game \<Rightarrow> bool" where
  played_init: "played initGame"
| played_tick:
    "played g \<Longrightarrow> draw (rnd_explore inp) \<Longrightarrow> draw (rnd_jump inp) \<Longrightarrow>
     draw (rnd_tube0 inp) \<Longrightarrow> draw (rnd_tube1 inp) \<Longrightarrow>
     (gameState g = GAME \<and> collided inp \<longrightarrow> may_collide inp g) \<Longrightarrow>
     loop inp g = Inr g' \<Longrightarrow> played g'"
| played_key:
    "played g \<Longrightarrow> draw r0 \<Longrightarrow> draw r1 \<Longrightarrow> played (handleUserInteraction r0 r1 g)"
| played_env: "played g \<Longrightarrow> played (environmentChange curEnv g)"
| played_model: "played g \<Longrightarrow> played (g\<lparr>Q_table := Q\<rparr>)"

text \<open>
  What every played state satisfies in addition to \<open>game_inv\<close>: before and
  during play the buffer holds six entries or more, or the bird is still on its way to
  the first tube of a run (tube 0 at \<open>x \<ge> 2\<close>, tube 1 19 pixels behind it, no
  point scored, the target index not 1) and the buffer holds at least \<open>33 - x\<close>
  entries already: \<open>nextStep\<close> pushes one entry on every tick on which the target
  tube is at most 28 pixels ahead of the bird, that is from \<open>x = 33\<close> on. A run
  that follows a collision starts with the five entries that the trim has left.
\<close>

definition pre_approach :: "game \<Rightarrow> bool" where
  "pre_approach g \<longleftrightarrow>
     tube_x (snd (tubes g)) = tube_x (fst (tubes g)) + 19 \<and>
     2 \<le> tube_x (fst (tubes g)) \<and>
     targetTubeIndex g \<noteq> Some 1 \<and>
     score g = 0 \<and>
     33 - tube_x (fst (tubes g)) \<le> int (length (frameBuffer g))"

definition buffer_inv :: "game \<Rightarrow> bool" where
  "buffer_inv g \<longleftrightarrow>
     (gameState g = HOME \<or> gameState g = GAME \<longrightarrow>
        6 \<le> length (frameBuffer g) \<or> pre_approach g)"

text \<open>
  A concrete run: after the key press that starts the game, 46 ticks without a
  collision and without a jump bring tube 0 from \<open>x = 48\<close> to \<open>x = 2\<close>, where
  the target index is about to flip; \<open>crash\<close> is a tick that ends in a collision.
  \<open>agent6\<close> holds six entries.
\<close>

definition quiet :: inputs where
  "quiet = \<lparr>collided = False, rnd_explore = 1 / 2, rnd_jump = 1 / 3,
             rnd_tube0 = 0, rnd_tube1 = 0\<rparr>"

definition crash :: inputs where
  "crash = \<lparr>collided = True, rnd_explore = 1 / 2, rnd_jump = 1 / 3,
             rnd_tube0 = 0, rnd_tube1 = 0\<rparr>"

definition quiet_tick :: "game \<Rightarrow> game" where
  "quiet_tick g = (case loop quiet g of Inl e \<Rightarrow> g | Inr g' \<Rightarrow> g')"

primrec ticks :: "nat \<Rightarrow> game \<Rightarrow> game" where
  "ticks 0 g = g"
| "ticks (Suc n) g = quiet_tick (ticks n g)"

definition approach :: game where
  "approach = ticks 46 started"

definition agent6 :: agent where
  "agent6 = \<lparr>Q_table = Map.empty,
      frameBuffer = [\<lparr>env = st1, action = STAY\<rparr>, \<lparr>env = st2, action = JUMP\<rparr>,
                     \<lparr>env = st3, action = STAY\<rparr>, \<lparr>env = st1, action = JUMP\<rparr>,
                     \<lparr>env = st2, action = STAY\<rparr>, \<lparr>env = st3, action = JUMP\<rparr>],
      episodeFrameCount = 6\<rparr>"

section \<open>The JSON text of a Q-table\<close>



























section \<open>Properties of rewardTheBird\<close>

lemma rewardTheBird_loop_stop:
  "i < 0 \<or> frameSize = 0 \<Longrightarrow> rewardTheBird_loop reward wasSuccessful fb i frameSize Q = Inr Q"
  by (subst rewardTheBird_loop.simps) auto

lemma getQ_setQ_same: "getQ (setQ Q st a d) st a = getQ Q st a + d"
  by (simp add: getQ_def setQ_def Let_def split: option.splits)

lemma getQ_setQ_other:
  "qconfig st' a' \<noteq> qconfig st a \<Longrightarrow> getQ (setQ Q st a d) st' a' = getQ Q st' a'"
  by (simp add: getQ_def setQ_def Let_def split: option.splits)

lemma loop_step:
  assumes "0 \<le> i" "i + 1 < int (length fb)" "0 < frameSize"
  shows "rewardTheBird_loop reward wasSuccessful fb i frameSize Q =
         rewardTheBird_loop reward wasSuccessful fb (i - 1) (frameSize - 1)
           (td_update reward wasSuccessful fb Q (nat i))"
proof -
  have a: "js_index fb i = Some (fb ! nat i)"
    using assms by (simp add: js_index_def)
  have b: "js_index fb (i + 1) = Some (fb ! (nat i + 1))"
    using assms by (simp add: js_index_def nat_add_distrib)
  show ?thesis
    using assms
    by (subst rewardTheBird_loop.simps)
       (simp add: a b Let_def td_update_def td_delta_def shaped_reward_def theta_def)
qed

lemma loop_closed:
  "i + 1 < length fb \<Longrightarrow>
   rewardTheBird_loop reward wasSuccessful fb (int i) frameSize Q =
   Inr (foldl (td_update reward wasSuccessful fb) Q
          (map (\<lambda>j. i - j) [0..<min (i + 1) frameSize]))"
proof (induction frameSize arbitrary: i Q)
  case 0
  then show ?case by (simp add: rewardTheBird_loop_stop)
next
  case (Suc fs)
  have step: "rewardTheBird_loop reward wasSuccessful fb (int i) (Suc fs) Q =
      rewardTheBird_loop reward wasSuccessful fb (int i - 1) fs
        (td_update reward wasSuccessful fb Q i)"
    using loop_step [of "int i" fb "Suc fs" reward wasSuccessful Q] Suc.prems by simp
  show ?case
  proof (cases i)
    case 0
    then show ?thesis
      using step by (simp add: rewardTheBird_loop_stop)
  next
    case (Suc i')
    have idx: "[0..<Suc (min (Suc i') fs)] = 0 # map Suc [0..<min (Suc i') fs]"
      by (simp add: upt_conv_Cons map_Suc_upt del: upt_Suc)
    have "rewardTheBird_loop reward wasSuccessful fb (int i') fs
            (td_update reward wasSuccessful fb Q i) =
          Inr (foldl (td_update reward wasSuccessful fb) (td_update reward wasSuccessful fb Q i)
                 (map (\<lambda>j. i' - j) [0..<min (i' + 1) fs]))"
      using Suc.IH [of i'] Suc.prems Suc by simp
    then show ?thesis
      using step Suc idx by (simp add: o_def del: upt_Suc)
  qed
qed

lemma rewardTheBird_total:
  "rewardTheBird reward wasSuccessful w =
   Inr (w\<lparr>Q_table := foldl (td_update reward wasSuccessful (frameBuffer w)) (Q_table w)
                       (visited (length (frameBuffer w)) (episodeFrameCount w)),
          frameBuffer := drop (max (length (frameBuffer w) - 5) 1) (frameBuffer w),
          episodeFrameCount := 0\<rparr>)"
proof -
  let ?fb = "frameBuffer w"
  let ?n = "length ?fb"
  have sl: "slice ?fb (max (int ?n - 5) 1) = drop (max (?n - 5) 1) ?fb"
  proof -
    have "nat (int ?n - 5) = ?n - 5" by simp
    then show ?thesis
      by (auto simp: slice_def Let_def max_def min_def)
  qed
  show ?thesis
  proof (cases "2 \<le> ?n")
    case True
    then have "int ?n - 2 = int (?n - 2)" by simp
    moreover have "?n - 2 + 1 < ?n" using True by simp
    ultimately have "rewardTheBird_loop reward wasSuccessful ?fb (int ?n - 2)
        (max minFramSize (episodeFrameCount w)) (Q_table w) =
      Inr (foldl (td_update reward wasSuccessful ?fb) (Q_table w)
             (map (\<lambda>j. ?n - 2 - j) [0..<min (?n - 2 + 1) (max minFramSize (episodeFrameCount w))]))"
      using loop_closed [of "?n - 2" ?fb reward wasSuccessful "max minFramSize (episodeFrameCount w)" "Q_table w"]
      by simp
    moreover have "?n - 2 + 1 = ?n - 1" using True by simp
    ultimately show ?thesis
      by (simp add: rewardTheBird_def Let_def sl visited_def minFramSize_def)
  next
    case False
    then have "int ?n - 2 < 0" by simp
    then have "rewardTheBird_loop reward wasSuccessful ?fb (int ?n - 2)
        (max minFramSize (episodeFrameCount w)) (Q_table w) = Inr (Q_table w)"
      by (simp add: rewardTheBird_loop_stop)
    moreover have "visited ?n (episodeFrameCount w) = []"
      using False by (simp add: visited_def)
    ultimately show ?thesis
      by (simp add: rewardTheBird_def Let_def sl minFramSize_def)
  qed
qed

lemma set_visited:
  "set (visited n steps) = {n - 1 - min (n - 1) (max 5 steps)..<n - 1}"
proof -
  let ?k = "min (n - 1) (max 5 steps)"
  have "(\<lambda>j. n - 2 - j) ` {0..<?k} = {n - 1 - ?k..<n - 1}"
  proof (intro set_eqI iffI)
    fix x assume "x \<in> (\<lambda>j. n - 2 - j) ` {0..<?k}"
    then obtain j where "j < ?k" "x = n - 2 - j" by auto
    then show "x \<in> {n - 1 - ?k..<n - 1}" by auto
  next
    fix x assume x: "x \<in> {n - 1 - ?k..<n - 1}"
    then have "n - 2 - x < ?k" "x = n - 2 - (n - 2 - x)" by auto
    then show "x \<in> (\<lambda>j. n - 2 - j) ` {0..<?k}" by (metis atLeastLessThan_iff image_eqI zero_le)
  qed
  then show ?thesis by (simp add: visited_def)
qed

text \<open>
  Claim C1. On a buffer of at least two entries \<open>rewardTheBird\<close> returns, and its
  Q-table is the old one after the temporal-difference step at each visited position
  in turn. The visited positions start at the second-most-recent entry
  (\<open>length - 2\<close>) and run backwards for \<open>min (length - 1) (max 5 steps)\<close>
  positions; the most recent position is not among them. The step at a position adds
  to the estimate of its pair exactly
  \<open>alpha * (rewardForState + gamma * optimalFuture - estimate)\<close>, with
  \<open>alpha = 1/10\<close>, \<open>gamma = 8/10\<close>, \<open>optimalFuture\<close> the larger of the two
  estimates of the entry that follows in the buffer, and \<open>rewardForState\<close> equal to
  \<open>reward - \<bar>diffY\<bar>\<close> when the episode was a success.
\<close>

theorem C1_walk:
  assumes "2 \<le> length (frameBuffer w)"
  shows "(\<exists>w'. rewardTheBird reward wasSuccessful w = Inr w' \<and>
            Q_table w' =
              foldl (td_update reward wasSuccessful (frameBuffer w)) (Q_table w)
                (visited (length (frameBuffer w)) (episodeFrameCount w))) \<and>
         visited (length (frameBuffer w)) (episodeFrameCount w) =
           map (\<lambda>j. length (frameBuffer w) - 2 - j)
             [0..<min (length (frameBuffer w) - 1) (max 5 (episodeFrameCount w))] \<and>
         length (frameBuffer w) - 1 \<notin> set (visited (length (frameBuffer w)) (episodeFrameCount w)) \<and>
         (\<forall>Q i. getQ (td_update reward wasSuccessful (frameBuffer w) Q i)
                   (env (frameBuffer w ! i)) (action (frameBuffer w ! i)) =
                 getQ Q (env (frameBuffer w ! i)) (action (frameBuffer w ! i)) +
                 alpha * (shaped_reward reward wasSuccessful
                            (env (frameBuffer w ! i)) (action (frameBuffer w ! i))
                          + gamma * max (getQ Q (env (frameBuffer w ! (i + 1))) STAY)
                                        (getQ Q (env (frameBuffer w ! (i + 1))) JUMP)
                          - getQ Q (env (frameBuffer w ! i)) (action (frameBuffer w ! i)))) \<and>
         alpha = 1 / 10 \<and> gamma = 8 / 10 \<and>
         (\<forall>st a. shaped_reward reward True st a = reward - \<bar>real_of_int (diffY st)\<bar>)"
proof -
  have "\<exists>w'. rewardTheBird reward wasSuccessful w = Inr w' \<and>
            Q_table w' =
              foldl (td_update reward wasSuccessful (frameBuffer w)) (Q_table w)
                (visited (length (frameBuffer w)) (episodeFrameCount w))"
    by (subst rewardTheBird_total) simp
  moreover have "length (frameBuffer w) - 1 \<notin> set (visited (length (frameBuffer w)) (episodeFrameCount w))"
    by (simp add: set_visited)
  ultimately show ?thesis
    by (simp add: visited_def td_update_def td_delta_def getQ_setQ_same alpha_def gamma_def
          shaped_reward_def)
qed

theorem C1_walk_witness:
  "2 \<le> length (frameBuffer agent3) \<and>
   (\<exists>w'. rewardTheBird 5 True agent3 = Inr w' \<and>
      getQ (Q_table w') st2 JUMP = 4 / 10 \<and>
      getQ (Q_table w') st1 STAY = 332 / 1000 \<and>
      getQ (Q_table w') st3 STAY = 0)"
proof -
  have len: "2 \<le> length (frameBuffer agent3)"
    by (simp add: agent3_def)
  have vis: "visited (length (frameBuffer agent3)) (episodeFrameCount agent3) = [1, 0]"
    by (simp add: agent3_def visited_def upt_rec)
  from C1_walk [OF len, of 5 True]
  obtain w' where w': "rewardTheBird 5 True agent3 = Inr w'"
    "Q_table w' = foldl (td_update 5 True (frameBuffer agent3)) (Q_table agent3)
        (visited (length (frameBuffer agent3)) (episodeFrameCount agent3))"
    by blast
  have "Q_table w' = td_update 5 True (frameBuffer agent3)
          (td_update 5 True (frameBuffer agent3) Map.empty 1) 0"
    using w'(2) unfolding vis by (simp add: agent3_def)
  then have "getQ (Q_table w') st2 JUMP = 4 / 10 \<and>
      getQ (Q_table w') st1 STAY = 332 / 1000 \<and>
      getQ (Q_table w') st3 STAY = 0"
    by (simp add: agent3_def td_update_def td_delta_def shaped_reward_def getQ_def setQ_def
          qconfig_def st1_def st2_def st3_def alpha_def gamma_def Let_def)
  with len w'(1) show ?thesis by blast
qed

text \<open>
  Claim C6. With an empty buffer or a buffer of one entry the loop of
  \<open>rewardTheBird\<close> stops before its first iteration whatever the reward and the
  success flag are, so it hands back the table it was given; the call returns
  without an error, the Q-table is the one before the call, the buffer is emptied
  and the step counter is zero.
\<close>

theorem C6_short_buffer:
  assumes "length (frameBuffer w) < 2"
  shows "rewardTheBird_loop reward wasSuccessful (frameBuffer w)
           (int (length (frameBuffer w)) - 2) (max minFramSize (episodeFrameCount w)) Q = Inr Q \<and>
         rewardTheBird reward wasSuccessful w = Inr (w\<lparr>frameBuffer := [], episodeFrameCount := 0\<rparr>)"
proof -
  have neg: "int (length (frameBuffer w)) - 2 < 0"
    using assms by simp
  have "visited (length (frameBuffer w)) (episodeFrameCount w) = []"
    using assms by (simp add: visited_def)
  moreover have "drop (max (length (frameBuffer w) - 5) 1) (frameBuffer w) = []"
    using assms by simp
  ultimately have "rewardTheBird reward wasSuccessful w =
      Inr (w\<lparr>Q_table := Q_table w, frameBuffer := [], episodeFrameCount := 0\<rparr>)"
    by (simp add: rewardTheBird_total)
  then show ?thesis
    using neg by (simp add: rewardTheBird_loop_stop)
qed

theorem C6_short_buffer_witness:
  "length (frameBuffer agent1) < 2 \<and>
   rewardTheBird 100 False agent1 =
     Inr \<lparr>Q_table = [qconfig st3 STAY \<mapsto> 7], frameBuffer = [], episodeFrameCount = 0\<rparr>"
proof -
  have len: "length (frameBuffer agent1) < 2"
    by (simp add: agent1_def)
  from C6_short_buffer [OF len, of 100 False] len show ?thesis
    by (simp add: agent1_def)
qed

text \<open>
  Claim C9. Two consecutive iterations of the walk, at the positions \<open>i\<close> and
  \<open>i - 1\<close>: the second one computes its \<open>optimalFuture\<close> and its own estimate
  from the table that the first one has already written, in which the estimate of
  the pair at position \<open>i\<close> has moved by the first step's delta.
\<close>

theorem C9_updates_in_place:
  assumes "1 \<le> i" "i + 1 < length fb" "2 \<le> frameSize"
  shows "rewardTheBird_loop reward wasSuccessful fb (int i) frameSize Q =
           rewardTheBird_loop reward wasSuccessful fb (int i - 2) (frameSize - 2)
             (setQ (td_update reward wasSuccessful fb Q i)
                (env (fb ! (i - 1))) (action (fb ! (i - 1)))
                (alpha * (shaped_reward reward wasSuccessful (env (fb ! (i - 1))) (action (fb ! (i - 1)))
                          + gamma * max (getQ (td_update reward wasSuccessful fb Q i) (env (fb ! i)) STAY)
                                        (getQ (td_update reward wasSuccessful fb Q i) (env (fb ! i)) JUMP)
                          - getQ (td_update reward wasSuccessful fb Q i)
                              (env (fb ! (i - 1))) (action (fb ! (i - 1)))))) \<and>
         getQ (td_update reward wasSuccessful fb Q i) (env (fb ! i)) (action (fb ! i)) =
           getQ Q (env (fb ! i)) (action (fb ! i)) + td_delta reward wasSuccessful Q (fb ! i) (fb ! (i + 1))"
proof -
  have s1: "rewardTheBird_loop reward wasSuccessful fb (int i) frameSize Q =
      rewardTheBird_loop reward wasSuccessful fb (int i - 1) (frameSize - 1)
        (td_update reward wasSuccessful fb Q i)"
    using loop_step [of "int i" fb frameSize reward wasSuccessful Q] assms by simp
  have s2: "rewardTheBird_loop reward wasSuccessful fb (int i - 1) (frameSize - 1)
        (td_update reward wasSuccessful fb Q i) =
      rewardTheBird_loop reward wasSuccessful fb (int i - 1 - 1) (frameSize - 1 - 1)
        (td_update reward wasSuccessful fb (td_update reward wasSuccessful fb Q i) (nat (int i - 1)))"
    using loop_step [of "int i - 1" fb "frameSize - 1" reward wasSuccessful
        "td_update reward wasSuccessful fb Q i"] assms by simp
  have n: "nat (int i - 1) = i - 1" "i - 1 + 1 = i" "Suc (i - Suc 0) = i"
    using assms by simp_all
  define Q1 where "Q1 = td_update reward wasSuccessful fb Q i"
  have upd: "td_update reward wasSuccessful fb Q1 (i - 1) =
      setQ Q1 (env (fb ! (i - 1))) (action (fb ! (i - 1)))
        (alpha * (shaped_reward reward wasSuccessful (env (fb ! (i - 1))) (action (fb ! (i - 1)))
                  + gamma * max (getQ Q1 (env (fb ! i)) STAY) (getQ Q1 (env (fb ! i)) JUMP)
                  - getQ Q1 (env (fb ! (i - 1))) (action (fb ! (i - 1)))))"
    by (simp add: td_update_def td_delta_def n)
  have "rewardTheBird_loop reward wasSuccessful fb (int i) frameSize Q =
      rewardTheBird_loop reward wasSuccessful fb (int i - 2) (frameSize - 2)
        (td_update reward wasSuccessful fb Q1 (i - 1))"
  proof -
    have "int i - 1 - 1 = int i - 2" "frameSize - 1 - 1 = frameSize - 2"
      by simp_all
    with s1 s2 n(1) show ?thesis
      unfolding Q1_def by simp
  qed
  then have first: "rewardTheBird_loop reward wasSuccessful fb (int i) frameSize Q =
      rewardTheBird_loop reward wasSuccessful fb (int i - 2) (frameSize - 2)
        (setQ Q1 (env (fb ! (i - 1))) (action (fb ! (i - 1)))
        (alpha * (shaped_reward reward wasSuccessful (env (fb ! (i - 1))) (action (fb ! (i - 1)))
                  + gamma * max (getQ Q1 (env (fb ! i)) STAY) (getQ Q1 (env (fb ! i)) JUMP)
                  - getQ Q1 (env (fb ! (i - 1))) (action (fb ! (i - 1))))))"
    unfolding upd .
  have second: "getQ Q1 (env (fb ! i)) (action (fb ! i)) =
           getQ Q (env (fb ! i)) (action (fb ! i)) + td_delta reward wasSuccessful Q (fb ! i) (fb ! (i + 1))"
    by (simp add: Q1_def td_update_def getQ_setQ_same)
  from first second show ?thesis
    unfolding Q1_def by (rule conjI)
qed

theorem C9_updates_in_place_witness:
  "(1::nat) \<le> 1 \<and> 1 + 1 < length (frameBuffer agent3) \<and> (2::nat) \<le> 5 \<and>
   rewardTheBird_loop 5 True (frameBuffer agent3) 1 5 Map.empty =
     Inr [qconfig st2 JUMP \<mapsto> 4 / 10, qconfig st1 STAY \<mapsto> 1 / 10 * (3 + 8 / 10 * (4 / 10))] \<and>
   getQ (td_update 5 True (frameBuffer agent3) Map.empty 1) st2 JUMP = 4 / 10"
proof -
  have h: "(1::nat) \<le> 1" "1 + 1 < length (frameBuffer agent3)" "(2::nat) \<le> 5"
    by (simp_all add: agent3_def)
  have e: "env (frameBuffer agent3 ! (1 - 1)) = st1" "action (frameBuffer agent3 ! (1 - 1)) = STAY"
    "env (frameBuffer agent3 ! 1) = st2"
    by (simp_all add: agent3_def)
  have q1: "td_update 5 True (frameBuffer agent3) Map.empty 1 = [qconfig st2 JUMP \<mapsto> 4 / 10]"
    by (simp add: agent3_def td_update_def td_delta_def shaped_reward_def getQ_def setQ_def
          qconfig_def st2_def st3_def alpha_def gamma_def Let_def)
  have q2: "setQ [qconfig st2 JUMP \<mapsto> 4 / 10] st1 STAY
       (alpha * (shaped_reward 5 True st1 STAY
          + gamma * max (getQ [qconfig st2 JUMP \<mapsto> 4 / 10] st2 STAY)
                        (getQ [qconfig st2 JUMP \<mapsto> 4 / 10] st2 JUMP)
          - getQ [qconfig st2 JUMP \<mapsto> 4 / 10] st1 STAY)) =
      [qconfig st2 JUMP \<mapsto> 4 / 10, qconfig st1 STAY \<mapsto> 1 / 10 * (3 + 8 / 10 * (4 / 10))]"
    by (simp add: shaped_reward_def getQ_def setQ_def
          qconfig_def st1_def st2_def alpha_def gamma_def Let_def)
  have stop: "\<And>X. rewardTheBird_loop 5 True (frameBuffer agent3) (int 1 - 2) (5 - 2) X = Inr X"
    by (simp add: rewardTheBird_loop_stop)
  have q3: "getQ (td_update 5 True (frameBuffer agent3) Map.empty 1) st2 JUMP = 4 / 10"
    unfolding q1 by (simp add: getQ_def)
  have "rewardTheBird_loop 5 True (frameBuffer agent3) (int 1) 5 Map.empty =
     Inr [qconfig st2 JUMP \<mapsto> 4 / 10, qconfig st1 STAY \<mapsto> 1 / 10 * (3 + 8 / 10 * (4 / 10))]"
    using conjunct1 [OF C9_updates_in_place [OF h, of 5 True Map.empty]]
    unfolding e q1 q2 stop .
  then have "rewardTheBird_loop 5 True (frameBuffer agent3) 1 5 Map.empty =
     Inr [qconfig st2 JUMP \<mapsto> 4 / 10, qconfig st1 STAY \<mapsto> 1 / 10 * (3 + 8 / 10 * (4 / 10))]"
    by simp
  with h q3 show ?thesis by blast
qed

text \<open>
  Claim C2, amended. One iteration of the walk at a position \<open>i\<close> of the buffer
  updates the pair recorded there with a reward that, when the episode failed, is the
  negated \<open>reward - \<bar>diffY\<bar>\<close> if \<open>diffY\<close> is at least the tolerance 1 and the
  action was Jump, or if \<open>diffY\<close> is at most -1 and the action was Stay, and is
  1/2 in every other case; when the episode succeeded it is \<open>reward - \<bar>diffY\<bar>\<close>.
\<close>

theorem C2_failure_shaping:
  assumes "0 \<le> i" "i + 1 < int (length fb)" "0 < frameSize"
  shows "rewardTheBird_loop reward wasSuccessful fb i frameSize Q =
         rewardTheBird_loop reward wasSuccessful fb (i - 1) (frameSize - 1)
           (setQ Q (env (fb ! nat i)) (action (fb ! nat i))
              (alpha *
                 ((if wasSuccessful then reward - \<bar>real_of_int (diffY (env (fb ! nat i)))\<bar>
                   else if 1 \<le> diffY (env (fb ! nat i)) \<and> action (fb ! nat i) = JUMP
                     then - (reward - \<bar>real_of_int (diffY (env (fb ! nat i)))\<bar>)
                   else if diffY (env (fb ! nat i)) \<le> - 1 \<and> action (fb ! nat i) = STAY
                     then - (reward - \<bar>real_of_int (diffY (env (fb ! nat i)))\<bar>)
                   else 1 / 2)
                  + gamma * max (getQ Q (env (fb ! (nat i + 1))) STAY)
                                (getQ Q (env (fb ! (nat i + 1))) JUMP)
                  - getQ Q (env (fb ! nat i)) (action (fb ! nat i)))))"
  using loop_step [OF assms, of reward wasSuccessful Q]
  unfolding td_update_def td_delta_def shaped_reward_def .

theorem C2_failure_shaping_witness:
  "(0::int) \<le> 0 \<and> 0 + 1 < int (length (frameBuffer agentA)) \<and> (0::nat) < 5 \<and>
   rewardTheBird_loop 100 False (frameBuffer agentA) 0 5 Map.empty =
     Inr [qconfig stA JUMP \<mapsto> - (99 / 10)]"
proof -
  have h: "(0::int) \<le> 0" "0 + 1 < int (length (frameBuffer agentA))" "(0::nat) < 5"
    by (simp_all add: agentA_def)
  have "rewardTheBird_loop 100 False (frameBuffer agentA) 0 5 Map.empty =
     Inr [qconfig stA JUMP \<mapsto> - (99 / 10)]"
    using C2_failure_shaping [OF h, of 100 False Map.empty]
    by (simp add: agentA_def stA_def st3_def rewardTheBird_loop_stop getQ_def setQ_def
          qconfig_def alpha_def gamma_def Let_def)
  with h show ?thesis by blast
qed

text \<open>
  Claim C2 as stated fails for a deviation equal to the tolerance: with \<open>diffY = 1\<close>
  and the action Jump in a failed episode the code negates the reward (the estimate
  becomes -99/10), where "more than the tolerance" would give the fixed 1/2.
\<close>

theorem C2_counterexample:
  "rewardTheBird 100 False agentA =
     Inr \<lparr>Q_table = [qconfig stA JUMP \<mapsto> - (99 / 10)],
          frameBuffer = [\<lparr>env = st3, action = STAY\<rparr>], episodeFrameCount = 0\<rparr> \<and>
   \<not> theta < diffY stA \<and>
   claimed_shaping 100 stA JUMP = 1 / 2 \<and>
   [qconfig stA JUMP \<mapsto> - (99 / 10)] \<noteq>
     setQ Map.empty stA JUMP
       (alpha * (claimed_shaping 100 stA JUMP
                 + gamma * max (getQ Map.empty st3 STAY) (getQ Map.empty st3 JUMP)
                 - getQ Map.empty stA JUMP))"
proof -
  have vis: "visited (length (frameBuffer agentA)) (episodeFrameCount agentA) = [0]"
    by (simp add: agentA_def visited_def upt_rec)
  have "rewardTheBird 100 False agentA =
     Inr \<lparr>Q_table = [qconfig stA JUMP \<mapsto> - (99 / 10)],
          frameBuffer = [\<lparr>env = st3, action = STAY\<rparr>], episodeFrameCount = 0\<rparr>"
    unfolding rewardTheBird_total vis
    by (simp add: agentA_def td_update_def td_delta_def shaped_reward_def stA_def st3_def
          getQ_def setQ_def qconfig_def alpha_def gamma_def Let_def)
  moreover have "[qconfig stA JUMP \<mapsto> - (99 / 10)] \<noteq>
     setQ Map.empty stA JUMP
       (alpha * (claimed_shaping 100 stA JUMP
                 + gamma * max (getQ Map.empty st3 STAY) (getQ Map.empty st3 JUMP)
                 - getQ Map.empty stA JUMP))"
  proof
    assume "[qconfig stA JUMP \<mapsto> - (99 / 10)] =
     setQ Map.empty stA JUMP
       (alpha * (claimed_shaping 100 stA JUMP
                 + gamma * max (getQ Map.empty st3 STAY) (getQ Map.empty st3 JUMP)
                 - getQ Map.empty stA JUMP))"
    then have "getQ [qconfig stA JUMP \<mapsto> - (99 / 10)] stA JUMP =
      getQ (setQ Map.empty stA JUMP
       (alpha * (claimed_shaping 100 stA JUMP
                 + gamma * max (getQ Map.empty st3 STAY) (getQ Map.empty st3 JUMP)
                 - getQ Map.empty stA JUMP))) stA JUMP"
      by simp
    then show False
      by (simp add: getQ_setQ_same)
         (simp add: getQ_def claimed_shaping_def theta_def stA_def alpha_def gamma_def)
  qed
  ultimately show ?thesis
    by (simp add: claimed_shaping_def theta_def stA_def)
qed

text \<open>
  What the trim does in general: it drops the oldest entry of every buffer of at most
  six entries and keeps the last five of a longer one, so that the buffer never grows
  and never holds more than five entries afterwards.
\<close>

lemma rewardTheBird_trim:
  "\<exists>w'. rewardTheBird reward wasSuccessful w = Inr w' \<and>
     frameBuffer w' = drop (max (length (frameBuffer w) - 5) 1) (frameBuffer w) \<and>
     length (frameBuffer w') = min 5 (length (frameBuffer w) - 1) \<and>
     length (frameBuffer w') \<le> max (length (frameBuffer w)) 5 \<and>
     length (frameBuffer w') \<le> 5 \<and>
     episodeFrameCount w' = 0"
  by (subst rewardTheBird_total) auto

text \<open>
  A buffer of exactly five entries: the start of the slice is never below 1, so
  \<open>rewardTheBird\<close> would keep the last four of them, where the comment above the
  slice speaks of the most recent five. This is what \<open>rewardTheBird_trim\<close> says for
  every buffer of one to five entries. No call made by the game passes such a buffer:
  see \<open>flip_call_six\<close>, \<open>collision_call_six\<close> and the theorem that follows them.
\<close>

lemma rewardTheBird_five_entries:
  "map_sum id frameBuffer (rewardTheBird 5 True agent5) =
     Inr [\<lparr>env = st2, action = JUMP\<rparr>, \<lparr>env = st3, action = STAY\<rparr>,
          \<lparr>env = st1, action = JUMP\<rparr>, \<lparr>env = st2, action = STAY\<rparr>] \<and>
   map_sum id (\<lambda>w. length (frameBuffer w)) (rewardTheBird 5 True agent5) = Inr 4 \<and>
   length (frameBuffer agent5) = 5 \<and>
   map_sum id episodeFrameCount (rewardTheBird 5 True agent5) = Inr 0"
  unfolding rewardTheBird_total by (simp add: agent5_def)

section \<open>Properties of the game loop and of nextStep\<close>

lemma tube_x_setTubeY [simp]: "tube_x (setTubeY static r t) = tube_x t"
  by (simp add: setTubeY_def)

lemma nextStep_game:
  assumes "gameState g = GAME"
  shows "\<exists>g1. nextStep r1 r2 g = Inr g1 \<and> gameState g1 = GAME \<and> tubes g1 = tubes g \<and>
           targetTubeIndex g1 = Some (int (target_index_of g))"
proof (cases "birdX < tube_x (fst (tubes g)) + 3 \<and>
         (tube_x (fst (tubes g)) < tube_x (snd (tubes g)) \<or>
          tube_x (snd (tubes g)) + 3 < birdX)")
  case True
  then have k: "target_index_of g = 0"
    by (simp add: target_index_of_def)
  show ?thesis
    unfolding k nextStep_def if_P [OF True] using assms
    by (simp add: rewardTheBird_total Let_def)
next
  case False
  then have k: "target_index_of g = 1"
    by (simp add: target_index_of_def)
  show ?thesis
    unfolding k nextStep_def if_not_P [OF False] using assms
    by (simp add: rewardTheBird_total Let_def)
qed

lemma renderTubes_frame:
  "gameState (renderTubes r0 r1 g) = gameState g \<and>
   targetTubeIndex (renderTubes r0 r1 g) = targetTubeIndex g \<and>
   activeTube (renderTubes r0 r1 g) \<noteq> None \<and>
   tube_x (fst (tubes (renderTubes r0 r1 g))) =
     (if tube_x (fst (tubes g)) - 1 \<le> - 6 then 32 else tube_x (fst (tubes g)) - 1) \<and>
   tube_x (snd (tubes (renderTubes r0 r1 g))) =
     (if tube_x (snd (tubes g)) - 1 \<le> - 6 then 32 else tube_x (snd (tubes g)) - 1)"
  by (simp add: renderTubes_def Let_def)

lemma updateBirdGame_frame:
  "gameState (updateBirdGame g) = gameState g \<and>
   targetTubeIndex (updateBirdGame g) = targetTubeIndex g \<and>
   activeTube (updateBirdGame g) = activeTube g \<and>
   tubes (updateBirdGame g) = tubes g"
  by (simp add: updateBirdGame_def Let_def)

lemma checkCollision_frame:
  assumes "activeTube g \<noteq> None"
  shows "\<exists>g'. checkCollision hit g = Inr g' \<and> tubes g' = tubes g \<and>
           (if hit then gameState g' = GAME_OVER \<and> targetTubeIndex g' = Some (- 1)
            else gameState g' = gameState g \<and> targetTubeIndex g' = targetTubeIndex g)"
proof -
  from assms obtain k where k: "activeTube g = Some k" by blast
  show ?thesis
  proof (cases hit)
    case True
    then show ?thesis
      by (simp add: checkCollision_def k triggerGameOver_def rewardTheBird_total Let_def)
  next
    case False
    then show ?thesis
      by (simp add: checkCollision_def k Let_def)
  qed
qed

lemma renderGame_frame:
  "\<exists>g'. renderGame inp g = Inr g' \<and>
     tube_x (fst (tubes g')) =
       (if tube_x (fst (tubes g)) - 1 \<le> - 6 then 32 else tube_x (fst (tubes g)) - 1) \<and>
     tube_x (snd (tubes g')) =
       (if tube_x (snd (tubes g)) - 1 \<le> - 6 then 32 else tube_x (snd (tubes g)) - 1) \<and>
     (if collided inp then gameState g' = GAME_OVER \<and> targetTubeIndex g' = Some (- 1)
      else gameState g' = gameState g \<and> targetTubeIndex g' = targetTubeIndex g)"
proof -
  let ?g1 = "updateBirdGame (renderTubes (rnd_tube0 inp) (rnd_tube1 inp) g)"
  have "activeTube ?g1 \<noteq> None"
    using renderTubes_frame updateBirdGame_frame by simp
  from checkCollision_frame [OF this, of "collided inp"]
  obtain g' where g': "checkCollision (collided inp) ?g1 = Inr g'" "tubes g' = tubes ?g1"
    "if collided inp then gameState g' = GAME_OVER \<and> targetTubeIndex g' = Some (- 1)
     else gameState g' = gameState ?g1 \<and> targetTubeIndex g' = targetTubeIndex ?g1"
    by blast
  show ?thesis
    using g' renderTubes_frame [of "rnd_tube0 inp" "rnd_tube1 inp" g]
      updateBirdGame_frame [of "renderTubes (rnd_tube0 inp) (rnd_tube1 inp) g"]
    by (auto simp: renderGame_def)
qed

text \<open>
  A tick never throws, so nothing is lost by letting \<open>reachable\<close> follow only the
  ticks that return.
\<close>

lemma loop_total: "\<exists>g'. loop inp g = Inr g'"
proof (cases "gameState g")
  case GAME
  from nextStep_game [OF this] obtain g1 where "nextStep (rnd_explore inp) (rnd_jump inp) g = Inr g1"
    by blast
  with GAME renderGame_frame [of inp g1] show ?thesis
    by (auto simp: loop_def)
qed (simp_all add: loop_def)

lemma game_inv_init: "game_inv initGame"
  by (simp add: game_inv_def initGame_def startGame_def js_round_def)

lemma tubes_move:
  fixes t0 t1 :: int
  assumes "(t1 = t0 + 19 \<and> - 5 \<le> t0 \<and> t0 \<le> 48) \<or> (t0 = t1 + 19 \<and> - 5 \<le> t1 \<and> t1 \<le> 13)"
  shows "(((if t1 - 1 \<le> - 6 then 32 else t1 - 1) = (if t0 - 1 \<le> - 6 then 32 else t0 - 1) + 19 \<and>
           - 5 \<le> (if t0 - 1 \<le> - 6 then 32 else t0 - 1) \<and>
           (if t0 - 1 \<le> - 6 then 32 else t0 - 1) \<le> 48) \<or>
          ((if t0 - 1 \<le> - 6 then 32 else t0 - 1) = (if t1 - 1 \<le> - 6 then 32 else t1 - 1) + 19 \<and>
           - 5 \<le> (if t1 - 1 \<le> - 6 then 32 else t1 - 1) \<and>
           (if t1 - 1 \<le> - 6 then 32 else t1 - 1) \<le> 13)) \<and>
         (34 \<le> (if t0 - 1 \<le> - 6 then 32 else t0 - 1) \<longrightarrow>
            5 < t0 + 3 \<and> (t0 < t1 \<or> t1 + 3 < 5))"
  using assms by auto

lemma game_inv_tick:
  assumes "game_inv g" "loop inp g = Inr g'"
  shows "game_inv g'"
proof (cases "gameState g")
  case HOME
  with assms show ?thesis by (simp add: loop_def)
next
  case GAME
  from nextStep_game [OF this] obtain g1 where g1:
    "nextStep (rnd_explore inp) (rnd_jump inp) g = Inr g1" "gameState g1 = GAME"
    "tubes g1 = tubes g" "targetTubeIndex g1 = Some (int (target_index_of g))"
    by blast
  from renderGame_frame [of inp g1] obtain g2 where g2:
    "renderGame inp g1 = Inr g2"
    "tube_x (fst (tubes g2)) =
       (if tube_x (fst (tubes g1)) - 1 \<le> - 6 then 32 else tube_x (fst (tubes g1)) - 1)"
    "tube_x (snd (tubes g2)) =
       (if tube_x (snd (tubes g1)) - 1 \<le> - 6 then 32 else tube_x (snd (tubes g1)) - 1)"
    "if collided inp then gameState g2 = GAME_OVER \<and> targetTubeIndex g2 = Some (- 1)
      else gameState g2 = gameState g1 \<and> targetTubeIndex g2 = targetTubeIndex g1"
    by blast
  have eq: "g' = g2"
    using assms(2) GAME g1(1) g2(1) by (simp add: loop_def)
  have form: "(tube_x (snd (tubes g)) = tube_x (fst (tubes g)) + 19 \<and>
       - 5 \<le> tube_x (fst (tubes g)) \<and> tube_x (fst (tubes g)) \<le> 48) \<or>
      (tube_x (fst (tubes g)) = tube_x (snd (tubes g)) + 19 \<and>
       - 5 \<le> tube_x (snd (tubes g)) \<and> tube_x (snd (tubes g)) \<le> 13)"
    using assms(1) by (simp add: game_inv_def)
  note mv = tubes_move [OF form]
  have x0: "tube_x (fst (tubes g2)) =
       (if tube_x (fst (tubes g)) - 1 \<le> - 6 then 32 else tube_x (fst (tubes g)) - 1)"
    and x1: "tube_x (snd (tubes g2)) =
       (if tube_x (snd (tubes g)) - 1 \<le> - 6 then 32 else tube_x (snd (tubes g)) - 1)"
    using g2(2,3) unfolding g1(3) by blast+
  have st: "gameState g2 \<noteq> HI_SCORE" "gameState g2 = GAME_OVER \<longrightarrow> targetTubeIndex g2 = Some (- 1)"
    using g2(4) g1(2) by (auto split: if_splits)
  have far: "34 \<le> tube_x (fst (tubes g2)) \<longrightarrow> targetTubeIndex g2 \<noteq> Some 1"
  proof
    assume "34 \<le> tube_x (fst (tubes g2))"
    then have "5 < tube_x (fst (tubes g)) + 3 \<and>
        (tube_x (fst (tubes g)) < tube_x (snd (tubes g)) \<or> tube_x (snd (tubes g)) + 3 < 5)"
      using mv unfolding x0 by blast
    then have "target_index_of g = 0"
      unfolding target_index_of_def birdX_def by (rule if_P)
    then show "targetTubeIndex g2 \<noteq> Some 1"
      using g2(4) g1(4) by (auto split: if_splits)
  qed
  show ?thesis
    unfolding eq game_inv_def x0 x1
    using st far mv unfolding x0 by blast
next
  case GAME_OVER
  with assms show ?thesis
    by (auto simp: loop_def game_inv_def startGame_def renderGameOver_def js_round_def)
next
  case HI_SCORE
  with assms show ?thesis by (simp add: game_inv_def)
qed

lemma game_inv_key:
  assumes "game_inv g"
  shows "game_inv (handleUserInteraction r0 r1 g)"
  using assms by (cases "gameState g") (auto simp: handleUserInteraction_def game_inv_def)

lemma reachable_inv: "reachable g \<Longrightarrow> game_inv g"
proof (induction rule: reachable.induct)
  case reach_init
  show ?case by (rule game_inv_init)
next
  case (reach_tick g inp g')
  then show ?case using game_inv_tick by blast
next
  case (reach_key g r0 r1)
  then show ?case using game_inv_key by blast
next
  case (reach_env g curEnv)
  then show ?case by (simp add: game_inv_def environmentChange_def)
next
  case (reach_model g Q)
  then show ?case by (simp add: game_inv_def)
qed

lemma far_target:
  assumes "game_inv g" "28 < tube_x (target_of g) - birdX"
  shows "target_index_of g = 0 \<and> targetTubeIndex g \<noteq> Some 1"
proof -
  have form: "(tube_x (snd (tubes g)) = tube_x (fst (tubes g)) + 19 \<and>
       - 5 \<le> tube_x (fst (tubes g)) \<and> tube_x (fst (tubes g)) \<le> 48) \<or>
      (tube_x (fst (tubes g)) = tube_x (snd (tubes g)) + 19 \<and>
       - 5 \<le> tube_x (snd (tubes g)) \<and> tube_x (snd (tubes g)) \<le> 13)"
    and far: "34 \<le> tube_x (fst (tubes g)) \<longrightarrow> targetTubeIndex g \<noteq> Some 1"
    using assms(1) by (simp_all add: game_inv_def)
  have "target_index_of g = 0 \<and> 34 \<le> tube_x (fst (tubes g))"
    using form assms(2)
    by (auto simp: target_of_def target_index_of_def birdX_def split: if_splits)
  with far show ?thesis by blast
qed

lemma nextStep_far:
  assumes "gameState g = GAME" "target_index_of g = 0" "targetTubeIndex g \<noteq> Some 1"
    "28 < tube_x (target_of g) - birdX"
  shows "nextStep r1 r2 g = Inr (g\<lparr>targetTube := Some 0, targetTubeIndex := Some 0\<rparr>)"
proof -
  have c: "birdX < tube_x (fst (tubes g)) + 3 \<and>
         (tube_x (fst (tubes g)) < tube_x (snd (tubes g)) \<or>
          tube_x (snd (tubes g)) + 3 < birdX)"
    using assms(2) by (auto simp: target_index_of_def split: if_splits)
  have t: "target_of g = fst (tubes g)"
    unfolding target_of_def by (rule if_P [OF c])
  show ?thesis
    unfolding nextStep_def if_P [OF c] using assms(1,3,4) t
    by simp
qed

text \<open>
  Claim C10. In every state that the page can reach, a call of \<open>nextStep\<close> made
  while the game is not being played, or while the tube it targets is more than 28
  pixels ahead of the bird, returns early: outside play it changes nothing, in play
  it only records the target tube and its index. The Q-table, the frame buffer, the
  step counter and the bird's vertical speed are the ones before the call, and the
  result does not depend on the contents of the Q-table. (The episode-boundary test
  runs before the distance test, but in a reachable state the target index never
  flips while the target tube is that far away.)
\<close>

theorem C10_early_return:
  assumes "reachable g"
    and "gameState g \<noteq> GAME \<or> 28 < tube_x (target_of g) - birdX"
  shows "nextStep r1 r2 g =
           Inr (if gameState g \<noteq> GAME then g
                else g\<lparr>targetTube := Some (target_index_of g),
                       targetTubeIndex := Some (int (target_index_of g))\<rparr>) \<and>
         (\<forall>g'. nextStep r1 r2 g = Inr g' \<longrightarrow>
            Q_table g' = Q_table g \<and> frameBuffer g' = frameBuffer g \<and>
            episodeFrameCount g' = episodeFrameCount g \<and> birdYSpeed g' = birdYSpeed g) \<and>
         (\<forall>Q g'. nextStep r1 r2 g = Inr g' \<longrightarrow>
            nextStep r1 r2 (g\<lparr>Q_table := Q\<rparr>) = Inr (g'\<lparr>Q_table := Q\<rparr>))"
proof (cases "gameState g = GAME")
  case False
  then show ?thesis by (simp add: nextStep_def)
next
  case True
  with assms(2) have far: "28 < tube_x (target_of g) - birdX" by simp
  from far_target [OF reachable_inv [OF assms(1)] far]
  have k: "target_index_of g = 0" "targetTubeIndex g \<noteq> Some 1" by simp_all
  have r: "nextStep r1 r2 g = Inr (g\<lparr>targetTube := Some 0, targetTubeIndex := Some 0\<rparr>)"
    by (rule nextStep_far [OF True k far])
  have "nextStep r1 r2 (g\<lparr>Q_table := Q\<rparr>) =
      Inr (g\<lparr>Q_table := Q, targetTube := Some 0, targetTubeIndex := Some 0\<rparr>)" for Q
  proof -
    have "target_index_of (g\<lparr>Q_table := Q\<rparr>) = target_index_of g"
      "target_of (g\<lparr>Q_table := Q\<rparr>) = target_of g"
      by (auto simp: target_index_of_def target_of_def)
    then have "target_index_of (g\<lparr>Q_table := Q\<rparr>) = 0"
      "28 < tube_x (target_of (g\<lparr>Q_table := Q\<rparr>)) - birdX"
      using k(1) far by simp_all
    with nextStep_far [of "g\<lparr>Q_table := Q\<rparr>" r1 r2] True k(2) show ?thesis
      by simp
  qed
  then show ?thesis
    using r True k by simp
qed

theorem C10_early_return_witness:
  "reachable started \<and>
   gameState started = GAME \<and> tube_x (target_of started) - birdX = 43 \<and>
   nextStep (1 / 2) (1 / 2) started =
     Inr (started\<lparr>targetTube := Some 0, targetTubeIndex := Some 0\<rparr>)"
proof -
  have r: "reachable started"
    unfolding started_def by (rule reach_key [OF reach_init]) (simp_all add: draw_def)
  have v: "gameState started = GAME" "tube_x (target_of started) - birdX = 43"
    "target_index_of started = 0"
    by (simp_all add: started_def handleUserInteraction_def initGame_def startGame_def
          target_of_def target_index_of_def birdX_def js_round_def)
  then have h: "gameState started \<noteq> GAME \<or> 28 < tube_x (target_of started) - birdX"
    by simp
  from conjunct1 [OF C10_early_return [OF r h, of "1 / 2" "1 / 2"]] v r h show ?thesis
    by simp
qed

section \<open>Properties of getAction\<close>

lemma draws_in_card: "draws_in E N = card {k. k < N \<and> E (real k / real N)}"
proof -
  have "{i. i < length [0..<N] \<and> E (real ([0..<N] ! i) / real N)} = {k. k < N \<and> E (real k / real N)}"
    by auto
  then show ?thesis
    by (simp add: draws_in_def length_filter_conv_card)
qed

lemma filter_disj_length:
  "(\<And>x. \<not> (P x \<and> Q x)) \<Longrightarrow>
   length (filter (\<lambda>x. P x \<or> Q x) xs) = length (filter P xs) + length (filter Q xs)"
  by (induction xs) auto

lemma draws_in_disj:
  assumes "\<And>r. \<not> (A r \<and> B r)"
  shows "draws_in (\<lambda>r. A r \<or> B r) N = draws_in A N + draws_in B N"
  unfolding draws_in_def using assms by (intro filter_disj_length) blast

lemma frequency_disj:
  assumes "\<And>r. \<not> (A r \<and> B r)"
  shows "frequency (\<lambda>r. A r \<or> B r) N = frequency A N + frequency B N"
  by (simp add: frequency_def draws_in_disj [OF assms] add_divide_distrib)

lemma draws_in_cong:
  assumes "\<And>r. 0 \<le> r \<Longrightarrow> r < 1 \<Longrightarrow> A r = B r"
  shows "draws_in A N = draws_in B N"
proof -
  have "filter (\<lambda>k. A (real k / real N)) [0..<N] = filter (\<lambda>k. B (real k / real N)) [0..<N]"
  proof (rule filter_cong [OF refl])
    fix k assume "k \<in> set [0..<N]"
    then have "k < N" by simp
    then have "0 \<le> real k / real N" "real k / real N < 1" by simp_all
    then show "A (real k / real N) = B (real k / real N)" by (rule assms)
  qed
  then show ?thesis by (simp add: draws_in_def)
qed

lemma frequency_cong:
  assumes "\<And>r. 0 \<le> r \<Longrightarrow> r < 1 \<Longrightarrow> A r = B r"
  shows "frequency A N = frequency B N"
  by (simp add: frequency_def draws_in_cong [of A B, OF assms])

lemma draws_in_between_bounds:
  assumes "0 \<le> a" "a \<le> b" "b \<le> 1" "0 < N"
  shows "(b - a) * real N - 2 \<le> real (draws_in (between a b) N)"
    and "real (draws_in (between a b) N) \<le> (b - a) * real N + 1"
proof -
  define lo where "lo = nat \<lfloor>a * real N\<rfloor>"
  define hi where "hi = nat \<lfloor>b * real N\<rfloor>"
  define S where "S = {k. k < N \<and> between a b (real k / real N)}"
  have aN: "0 \<le> a * real N" and bN: "0 \<le> b * real N"
    using assms by simp_all
  have lo1: "real lo \<le> a * real N" and lo2: "a * real N < real lo + 1"
    using aN unfolding lo_def by (simp_all add: of_nat_nat)
  have hi1: "real hi \<le> b * real N" and hi2: "b * real N < real hi + 1"
    using bN unfolding hi_def by (simp_all add: of_nat_nat)
  have lohi: "lo \<le> hi"
    unfolding lo_def hi_def using assms
    by (intro nat_mono floor_mono mult_right_mono) simp_all
  have hiN: "hi \<le> N"
  proof -
    have "b * real N \<le> real N" using assms by (simp add: mult_left_le_one_le)
    with hi1 have "real hi \<le> real N" by linarith
    then show ?thesis by simp
  qed
  have mem: "k \<in> S \<longleftrightarrow> k < N \<and> lo < k \<and> k \<le> hi" for k
  proof -
    have "a < real k / real N \<longleftrightarrow> a * real N < real k"
      using assms(4) by (simp add: pos_less_divide_eq)
    also have "\<dots> \<longleftrightarrow> lo < k"
    proof
      assume "a * real N < real k"
      with lo1 have "real lo < real k" by linarith
      then show "lo < k" by simp
    next
      assume "lo < k"
      then have "real lo + 1 \<le> real k" by linarith
      with lo2 show "a * real N < real k" by linarith
    qed
    finally have 1: "a < real k / real N \<longleftrightarrow> lo < k" .
    have "real k / real N \<le> b \<longleftrightarrow> real k \<le> b * real N"
      using assms(4) by (simp add: pos_divide_le_eq)
    also have "\<dots> \<longleftrightarrow> k \<le> hi"
    proof
      assume "real k \<le> b * real N"
      with hi2 have "real k < real hi + 1" by linarith
      then show "k \<le> hi" by linarith
    next
      assume "k \<le> hi"
      then have "real k \<le> real hi" by simp
      with hi1 show "real k \<le> b * real N" by linarith
    qed
    finally have 2: "real k / real N \<le> b \<longleftrightarrow> k \<le> hi" .
    show ?thesis
      unfolding S_def between_def using 1 2 by simp
  qed
  have sub: "S \<subseteq> {lo<..hi}"
  proof
    fix k assume "k \<in> S"
    then have "lo < k \<and> k \<le> hi" by (simp only: mem)
    then show "k \<in> {lo<..hi}" by simp
  qed
  have sup: "{lo<..hi} \<subseteq> insert N S"
  proof
    fix k assume "k \<in> {lo<..hi}"
    then have k: "lo < k" "k \<le> hi" by simp_all
    show "k \<in> insert N S"
    proof (cases "k = N")
      case True
      then show ?thesis by simp
    next
      case False
      with k hiN have "k < N" by linarith
      with k have "k \<in> S" by (simp only: mem)
      then show ?thesis by simp
    qed
  qed
  have fin: "finite S"
    using sub by (rule finite_subset) simp
  have c1: "card S \<le> hi - lo"
    using card_mono [OF _ sub] by simp
  have "card {lo<..hi} \<le> card (insert N S)"
    using fin by (intro card_mono [OF _ sup]) simp
  also have "\<dots> \<le> card S + 1"
    using fin by (simp add: card_insert_if)
  finally have c2: "hi - lo \<le> card S + 1"
    by simp
  have d: "draws_in (between a b) N = card S"
    by (simp add: draws_in_card S_def)
  have r: "real (hi - lo) = real hi - real lo"
    using lohi by simp
  show "(b - a) * real N - 2 \<le> real (draws_in (between a b) N)"
  proof -
    have "real (hi - lo) \<le> real (card S) + 1"
      using c2 by linarith
    moreover have "(b - a) * real N - 1 \<le> real hi - real lo"
      using hi2 lo1 by (simp add: algebra_simps)
    ultimately show ?thesis
      unfolding d r by linarith
  qed
  show "real (draws_in (between a b) N) \<le> (b - a) * real N + 1"
  proof -
    have "real (card S) \<le> real (hi - lo)"
      using c1 by linarith
    moreover have "real hi - real lo \<le> (b - a) * real N + 1"
      using hi1 lo2 by (simp add: algebra_simps)
    ultimately show ?thesis
      unfolding d r by linarith
  qed
qed

lemma tendsto_const_plus_over_n:
  "(\<lambda>N. c + d / real N) \<longlonglongrightarrow> c"
proof -
  have "(\<lambda>N. c + d * (1 / real N)) \<longlonglongrightarrow> c + d * 0"
    by (intro tendsto_add tendsto_const tendsto_mult lim_1_over_n)
  then show ?thesis by simp
qed

lemma frequency_between:
  assumes "0 \<le> a" "a \<le> b" "b \<le> 1"
  shows "frequency (between a b) \<longlonglongrightarrow> b - a"
proof (rule real_tendsto_sandwich)
  show "(\<lambda>N. (b - a) + (- 2) / real N) \<longlonglongrightarrow> b - a"
    by (rule tendsto_const_plus_over_n)
  show "(\<lambda>N. (b - a) + 1 / real N) \<longlonglongrightarrow> b - a"
    by (rule tendsto_const_plus_over_n)
  show "eventually (\<lambda>N. (b - a) + (- 2) / real N \<le> frequency (between a b) N) sequentially"
  proof (rule eventually_sequentiallyI [of 1])
    fix N :: nat assume "1 \<le> N"
    then have N: "0 < N" by simp
    from draws_in_between_bounds(1) [OF assms N]
    have "((b - a) * real N - 2) / real N \<le> real (draws_in (between a b) N) / real N"
      using N by (intro divide_right_mono) simp_all
    then show "(b - a) + (- 2) / real N \<le> frequency (between a b) N"
      using N by (simp add: frequency_def diff_divide_distrib)
  qed
  show "eventually (\<lambda>N. frequency (between a b) N \<le> (b - a) + 1 / real N) sequentially"
  proof (rule eventually_sequentiallyI [of 1])
    fix N :: nat assume "1 \<le> N"
    then have N: "0 < N" by simp
    from draws_in_between_bounds(2) [OF assms N]
    have "real (draws_in (between a b) N) / real N \<le> ((b - a) * real N + 1) / real N"
      using N by (intro divide_right_mono) simp_all
    then show "frequency (between a b) N \<le> (b - a) + 1 / real N"
      using N by (simp add: frequency_def add_divide_distrib)
  qed
qed

lemma frequency_bounded_count:
  assumes "\<And>N. draws_in E N \<le> c"
  shows "frequency E \<longlonglongrightarrow> 0"
proof (rule real_tendsto_sandwich)
  show "(\<lambda>N. 0::real) \<longlonglongrightarrow> 0" by (rule tendsto_const)
  show "(\<lambda>N. 0 + real c / real N) \<longlonglongrightarrow> 0"
    by (rule tendsto_const_plus_over_n)
  show "eventually (\<lambda>N. 0 \<le> frequency E N) sequentially"
    by (simp add: frequency_def)
  show "eventually (\<lambda>N. frequency E N \<le> 0 + real c / real N) sequentially"
  proof (rule eventually_sequentiallyI [of 1])
    fix N :: nat assume "1 \<le> N"
    have "real (draws_in E N) \<le> real c" using assms by simp
    then show "frequency E N \<le> 0 + real c / real N"
      by (simp add: frequency_def divide_right_mono)
  qed
qed

lemma draws_in_zero: "draws_in (\<lambda>r. r = 0) N \<le> 1"
proof -
  have "{k. k < N \<and> real k / real N = 0} \<subseteq> {0}"
    by auto
  then have "card {k. k < N \<and> real k / real N = 0} \<le> card {0::nat}"
    by (intro card_mono) simp_all
  then show ?thesis by (simp add: draws_in_card)
qed

lemma frequency_zero: "frequency (\<lambda>r. r = 0) \<longlonglongrightarrow> 0"
  by (rule frequency_bounded_count [of _ 1]) (rule draws_in_zero)

lemma ceiling_is: "\<lceil>x::real\<rceil> = n \<longleftrightarrow> real_of_int n - 1 < x \<and> x \<le> real_of_int n"
  by (rule ceiling_eq_iff)

lemma tie_jumps_iff:
  assumes "0 \<le> r" "r < 1"
  shows "tie_jumps r \<longleftrightarrow>
           r = 0 \<or> between (24 / 100) (25 / 100) r \<or> between (49 / 100) (50 / 100) r \<or>
           between (74 / 100) (75 / 100) r \<or> between (99 / 100) 1 r"
proof -
  define c where "c = \<lceil>r * 100\<rceil>"
  have c0: "0 \<le> c" unfolding c_def using assms by (simp add: ceiling_le_iff le_ceiling_iff)
  have c1: "c \<le> 100" unfolding c_def using assms by (simp add: ceiling_le_iff)
  have "c mod 25 = 0 \<longleftrightarrow> c = 0 \<or> c = 25 \<or> c = 50 \<or> c = 75 \<or> c = 100"
    using c0 c1 by presburger
  moreover have "c = 0 \<longleftrightarrow> r = 0"
    unfolding c_def ceiling_is using assms by auto
  moreover have "c = 25 \<longleftrightarrow> between (24 / 100) (25 / 100) r"
    unfolding c_def ceiling_is between_def by auto
  moreover have "c = 50 \<longleftrightarrow> between (49 / 100) (50 / 100) r"
    unfolding c_def ceiling_is between_def by auto
  moreover have "c = 75 \<longleftrightarrow> between (74 / 100) (75 / 100) r"
    unfolding c_def ceiling_is between_def by auto
  moreover have "c = 100 \<longleftrightarrow> between (99 / 100) 1 r"
    unfolding c_def ceiling_is between_def using assms by auto
  ultimately show ?thesis
    unfolding tie_jumps_def c_def by simp
qed

lemma exploring_iff:
  assumes "0 \<le> r" "r < 1"
  shows "exploring r \<longleftrightarrow> r = 0 \<or> between (9 / 10) (90001 / 100000) r"
proof -
  define c where "c = \<lceil>r * 100000\<rceil>"
  have c0: "0 \<le> c" unfolding c_def using assms by (simp add: le_ceiling_iff)
  have c1: "c \<le> 100000" unfolding c_def using assms by (simp add: ceiling_le_iff)
  have "c mod 90001 = 0 \<longleftrightarrow> c = 0 \<or> c = 90001"
  proof
    assume "c mod 90001 = 0"
    then have "90001 dvd c" by (simp add: mod_eq_0_iff_dvd)
    then obtain q where q: "c = 90001 * q" by (rule dvdE)
    with c0 c1 have "0 \<le> q" "q < 2" by simp_all
    then have "q = 0 \<or> q = 1" by linarith
    with q show "c = 0 \<or> c = 90001" by auto
  next
    assume "c = 0 \<or> c = 90001"
    then show "c mod 90001 = 0" by auto
  qed
  moreover have "c = 0 \<longleftrightarrow> r = 0"
    unfolding c_def ceiling_is using assms by auto
  moreover have "c = 90001 \<longleftrightarrow> between (9 / 10) (90001 / 100000) r"
    unfolding c_def ceiling_is between_def by auto
  ultimately show ?thesis
    unfolding exploring_def takeRandomDecision_def c_def by simp
qed

lemma frequency_tie_jumps: "frequency tie_jumps \<longlonglongrightarrow> 1 / 25"
proof -
  let ?I1 = "between (24 / 100) (25 / 100)"
  let ?I2 = "between (49 / 100) (50 / 100)"
  let ?I3 = "between (74 / 100) (75 / 100)"
  let ?I4 = "between (99 / 100) 1"
  have eq: "frequency tie_jumps N =
      frequency (\<lambda>r. r = 0) N + (frequency ?I1 N + (frequency ?I2 N + (frequency ?I3 N + frequency ?I4 N)))"
    for N
  proof -
    have "frequency tie_jumps N =
        frequency (\<lambda>r. r = 0 \<or> (?I1 r \<or> (?I2 r \<or> (?I3 r \<or> ?I4 r)))) N"
      by (rule frequency_cong) (simp add: tie_jumps_iff)
    also have "\<dots> = frequency (\<lambda>r. r = 0) N + frequency (\<lambda>r. ?I1 r \<or> (?I2 r \<or> (?I3 r \<or> ?I4 r))) N"
      by (rule frequency_disj) (auto simp: between_def)
    also have "frequency (\<lambda>r. ?I1 r \<or> (?I2 r \<or> (?I3 r \<or> ?I4 r))) N =
        frequency ?I1 N + frequency (\<lambda>r. ?I2 r \<or> (?I3 r \<or> ?I4 r)) N"
      by (rule frequency_disj) (auto simp: between_def)
    also have "frequency (\<lambda>r. ?I2 r \<or> (?I3 r \<or> ?I4 r)) N =
        frequency ?I2 N + frequency (\<lambda>r. ?I3 r \<or> ?I4 r) N"
      by (rule frequency_disj) (auto simp: between_def)
    also have "frequency (\<lambda>r. ?I3 r \<or> ?I4 r) N = frequency ?I3 N + frequency ?I4 N"
      by (rule frequency_disj) (auto simp: between_def)
    finally show ?thesis .
  qed
  have "(\<lambda>N. frequency (\<lambda>r. r = 0) N + (frequency ?I1 N + (frequency ?I2 N +
          (frequency ?I3 N + frequency ?I4 N)))) \<longlonglongrightarrow>
        0 + ((25 / 100 - 24 / 100) + ((50 / 100 - 49 / 100) + ((75 / 100 - 74 / 100) + (1 - 99 / 100))))"
    by (intro tendsto_add frequency_zero frequency_between) simp_all
  then show ?thesis
    unfolding eq [symmetric] by simp
qed

lemma frequency_exploring: "frequency exploring \<longlonglongrightarrow> 1 / 100000"
proof -
  have eq: "frequency exploring N =
      frequency (\<lambda>r. r = 0) N + frequency (between (9 / 10) (90001 / 100000)) N" for N
  proof -
    have "frequency exploring N =
        frequency (\<lambda>r. r = 0 \<or> between (9 / 10) (90001 / 100000) r) N"
      by (rule frequency_cong) (simp add: exploring_iff)
    also have "\<dots> = frequency (\<lambda>r. r = 0) N + frequency (between (9 / 10) (90001 / 100000)) N"
      by (rule frequency_disj) (auto simp: between_def)
    finally show ?thesis .
  qed
  have "(\<lambda>N. frequency (\<lambda>r. r = 0) N + frequency (between (9 / 10) (90001 / 100000)) N)
          \<longlonglongrightarrow> 0 + (90001 / 100000 - 9 / 10)"
    by (intro tendsto_add frequency_zero frequency_between) simp_all
  then show ?thesis
    unfolding eq [symmetric] by simp
qed

lemma frequency_complement:
  assumes "frequency E \<longlonglongrightarrow> p"
  shows "frequency (\<lambda>r. \<not> E r) \<longlonglongrightarrow> 1 - p"
proof -
  have all: "draws_in (\<lambda>r. True) N = N" for N
    by (simp add: draws_in_def)
  have "draws_in (\<lambda>r. E r \<or> \<not> E r) N = draws_in E N + draws_in (\<lambda>r. \<not> E r) N" for N
    by (rule draws_in_disj) simp
  then have sum: "draws_in E N + draws_in (\<lambda>r. \<not> E r) N = N" for N
    using all [of N] by simp
  have ev: "eventually (\<lambda>N. 1 - frequency E N = frequency (\<lambda>r. \<not> E r) N) sequentially"
  proof (rule eventually_sequentiallyI [of 1])
    fix N :: nat assume "1 \<le> N"
    then have N: "real N \<noteq> 0" by simp
    have "real (draws_in E N) + real (draws_in (\<lambda>r. \<not> E r) N) = real N"
      using sum [of N] by (metis of_nat_add)
    then have "real (draws_in (\<lambda>r. \<not> E r) N) / real N = (real N - real (draws_in E N)) / real N"
      by (simp add: algebra_simps)
    also have "\<dots> = 1 - real (draws_in E N) / real N"
      using N by (simp add: diff_divide_distrib)
    finally show "1 - frequency E N = frequency (\<lambda>r. \<not> E r) N"
      by (simp add: frequency_def)
  qed
  have "(\<lambda>N. 1 - frequency E N) \<longlonglongrightarrow> 1 - p"
    by (intro tendsto_diff tendsto_const assms)
  then show ?thesis
    by (rule Lim_transform_eventually [OF _ ev])
qed

lemma override_jumps_iff:
  assumes "0 \<le> r"
  shows "override_jumps r \<longleftrightarrow> r * 25 = real_of_int \<lfloor>r * 25\<rfloor>"
proof -
  have "0 \<le> r * 100 / 4" using assms by simp
  then have "js_rem (r * 100) 4 = r * 100 - 4 * real_of_int \<lfloor>r * 100 / 4\<rfloor>"
    unfolding js_rem_def by (simp only: if_True)
  moreover have "r * 100 / 4 = r * 25" by simp
  ultimately have "js_rem (r * 100) 4 = 4 * (r * 25 - real_of_int \<lfloor>r * 25\<rfloor>)"
    by simp
  then show ?thesis
    unfolding override_jumps_def by (simp add: mult.commute)
qed

lemma draws_in_override_jumps: "draws_in override_jumps N \<le> 25"
proof -
  define A where "A = {k. k < N \<and> override_jumps (real k / real N)}"
  define f where "f = (\<lambda>k. \<lfloor>real k / real N * 25\<rfloor>)"
  have val: "real k / real N * 25 = real_of_int (f k)" if "k \<in> A" for k
    using that override_jumps_iff [of "real k / real N"] by (simp add: A_def f_def)
  have inj: "inj_on f A"
  proof (rule inj_onI)
    fix k k' assume k: "k \<in> A" "k' \<in> A" and "f k = f k'"
    then have "real k / real N * 25 = real k' / real N * 25"
      using val [of k] val [of k'] by simp
    moreover have "0 < real N" using k(1) by (simp add: A_def)
    ultimately show "k = k'" by simp
  qed
  have img: "f ` A \<subseteq> {0..24}"
  proof
    fix y assume "y \<in> f ` A"
    then obtain k where k: "k \<in> A" "y = f k" by blast
    then have kN: "k < N" by (simp add: A_def)
    then have "real k / real N < 1" by simp
    then have "real k / real N * 25 < 1 * 25"
      by (intro mult_strict_right_mono) simp_all
    then have "0 \<le> real k / real N * 25" "real k / real N * 25 < 25" by simp_all
    then have "0 \<le> f k" "f k < 25"
      unfolding f_def by (simp_all add: floor_less_iff)
    with k(2) show "y \<in> {0..24}" by simp
  qed
  have "card A \<le> card {0..24::int}"
    by (rule card_inj_on_le [OF inj img]) simp
  then show ?thesis
    by (simp add: draws_in_card A_def)
qed

lemma frequency_override_jumps: "frequency override_jumps \<longlonglongrightarrow> 0"
  by (rule frequency_bounded_count [of _ 25]) (rule draws_in_override_jumps)

lemma getAction_exploring:
  "exploring r1 \<Longrightarrow> getAction Q r1 r2 st = (if override_jumps r2 then JUMP else STAY)"
  by (simp add: getAction_def exploring_def override_jumps_def)

lemma getAction_tie:
  assumes "\<not> exploring r1" "getQ Q st STAY = getQ Q st JUMP"
  shows "getAction Q r1 r2 st = (if tie_jumps r2 then JUMP else STAY)"
  using assms by (simp add: getAction_def exploring_def tie_jumps_def Let_def)

text \<open>
  Claim C5. When the exploration override does not fire, \<open>getAction\<close> returns the
  action whose estimate is strictly greater, whatever the second draw is. On a tie
  it returns Jump exactly for the second draws \<open>0\<close>, \<open>(0.24, 0.25]\<close>,
  \<open>(0.49, 0.5]\<close>, \<open>(0.74, 0.75]\<close> and \<open>(0.99, 1)\<close>: four intervals of length
  1/100 and one point, so that Jump has the long-run frequency 1/25 and Stay 24/25.
\<close>

theorem C5_greedy_choice_and_tie_break:
  assumes "\<not> exploring r1"
  shows "(getQ Q st JUMP < getQ Q st STAY \<longrightarrow> getAction Q r1 r2 st = STAY) \<and>
         (getQ Q st STAY < getQ Q st JUMP \<longrightarrow> getAction Q r1 r2 st = JUMP) \<and>
         (getQ Q st STAY = getQ Q st JUMP \<longrightarrow>
            (draw r2 \<longrightarrow>
               (getAction Q r1 r2 st = JUMP \<longleftrightarrow>
                  r2 = 0 \<or> between (24 / 100) (25 / 100) r2 \<or> between (49 / 100) (50 / 100) r2 \<or>
                  between (74 / 100) (75 / 100) r2 \<or> between (99 / 100) 1 r2)) \<and>
            frequency (\<lambda>r. getAction Q r1 r st = JUMP) \<longlonglongrightarrow> 1 / 25 \<and>
            frequency (\<lambda>r. getAction Q r1 r st = STAY) \<longlonglongrightarrow> 24 / 25)"
proof (intro conjI impI)
  assume "getQ Q st JUMP < getQ Q st STAY"
  then show "getAction Q r1 r2 st = STAY"
    using assms by (simp add: getAction_def exploring_def Let_def)
next
  assume "getQ Q st STAY < getQ Q st JUMP"
  then show "getAction Q r1 r2 st = JUMP"
    using assms by (simp add: getAction_def exploring_def Let_def)
next
  assume tie: "getQ Q st STAY = getQ Q st JUMP" and "draw r2"
  then have "0 \<le> r2" "r2 < 1" by (simp_all add: draw_def)
  from tie_jumps_iff [OF this] getAction_tie [OF assms tie, of r2]
  show "getAction Q r1 r2 st = JUMP \<longleftrightarrow>
          r2 = 0 \<or> between (24 / 100) (25 / 100) r2 \<or> between (49 / 100) (50 / 100) r2 \<or>
          between (74 / 100) (75 / 100) r2 \<or> between (99 / 100) 1 r2"
    by simp
next
  assume tie: "getQ Q st STAY = getQ Q st JUMP"
  have "(\<lambda>r. getAction Q r1 r st = JUMP) = tie_jumps"
    by (rule ext) (simp add: getAction_tie [OF assms tie])
  then show "frequency (\<lambda>r. getAction Q r1 r st = JUMP) \<longlonglongrightarrow> 1 / 25"
    using frequency_tie_jumps by simp
next
  assume tie: "getQ Q st STAY = getQ Q st JUMP"
  have "(\<lambda>r. getAction Q r1 r st = STAY) = (\<lambda>r. \<not> tie_jumps r)"
    by (rule ext) (simp add: getAction_tie [OF assms tie])
  moreover have "frequency (\<lambda>r. \<not> tie_jumps r) \<longlonglongrightarrow> 1 - 1 / 25"
    by (rule frequency_complement [OF frequency_tie_jumps])
  ultimately show "frequency (\<lambda>r. getAction Q r1 r st = STAY) \<longlonglongrightarrow> 24 / 25"
    by simp
qed

theorem C5_greedy_choice_and_tie_break_witness:
  "\<not> exploring (1 / 2) \<and> draw (1 / 4) \<and>
   getQ Map.empty st3 STAY = getQ Map.empty st3 JUMP \<and>
   getAction Map.empty (1 / 2) (1 / 4) st3 = JUMP \<and>
   frequency (\<lambda>r. getAction Map.empty (1 / 2) r st3 = JUMP) \<longlonglongrightarrow> 1 / 25 \<and>
   frequency (\<lambda>r. getAction Map.empty (1 / 2) r st3 = STAY) \<longlonglongrightarrow> 24 / 25 \<and>
   getQ [qconfig st3 STAY \<mapsto> - 1] st3 STAY < getQ [qconfig st3 STAY \<mapsto> - 1] st3 JUMP \<and>
   getAction [qconfig st3 STAY \<mapsto> - 1] (1 / 2) (1 / 3) st3 = JUMP \<and>
   getQ [qconfig st3 STAY \<mapsto> 1] st3 JUMP < getQ [qconfig st3 STAY \<mapsto> 1] st3 STAY \<and>
   getAction [qconfig st3 STAY \<mapsto> 1] (1 / 2) (1 / 4) st3 = STAY"
proof -
  have e: "\<not> exploring (1 / 2)"
    by (simp add: exploring_def takeRandomDecision_def)
  have d: "draw (1 / 4)" "between (24 / 100) (25 / 100) (1 / 4)"
    by (simp_all add: draw_def between_def)
  have t: "getQ Map.empty st3 STAY = getQ Map.empty st3 JUMP"
    by (simp add: getQ_def)
  have lt: "getQ [qconfig st3 STAY \<mapsto> - 1] st3 STAY < getQ [qconfig st3 STAY \<mapsto> - 1] st3 JUMP"
    by (simp add: getQ_def qconfig_def)
  have gt: "getQ [qconfig st3 STAY \<mapsto> 1] st3 JUMP < getQ [qconfig st3 STAY \<mapsto> 1] st3 STAY"
    by (simp add: getQ_def qconfig_def)
  from C5_greedy_choice_and_tie_break [OF e, of Map.empty st3 "1 / 4"] t d
  have "getAction Map.empty (1 / 2) (1 / 4) st3 = JUMP"
    "frequency (\<lambda>r. getAction Map.empty (1 / 2) r st3 = JUMP) \<longlonglongrightarrow> 1 / 25"
    "frequency (\<lambda>r. getAction Map.empty (1 / 2) r st3 = STAY) \<longlonglongrightarrow> 24 / 25"
    by blast+
  moreover from C5_greedy_choice_and_tie_break [OF e, of "[qconfig st3 STAY \<mapsto> - 1]" st3 "1 / 3"] lt
  have "getAction [qconfig st3 STAY \<mapsto> - 1] (1 / 2) (1 / 3) st3 = JUMP"
    by blast
  moreover from C5_greedy_choice_and_tie_break [OF e, of "[qconfig st3 STAY \<mapsto> 1]" st3 "1 / 4"] gt
  have "getAction [qconfig st3 STAY \<mapsto> 1] (1 / 2) (1 / 4) st3 = STAY"
    by blast
  ultimately show ?thesis
    using e d(1) t lt gt by blast
qed

text \<open>
  Claim C3, amended. The exploration override fires exactly for the first draws
  \<open>0\<close> and \<open>(0.9, 0.90001]\<close>, a long-run frequency of 1/100000 that does not
  involve the Q-table; when it fires, the action returned depends only on the second
  draw: it is the same for every table, every state and every first draw that fires
  the override.
\<close>

theorem C3_exploration_override:
  "(draw r1 \<longrightarrow> (exploring r1 \<longleftrightarrow> r1 = 0 \<or> between (9 / 10) (90001 / 100000) r1)) \<and>
   frequency exploring \<longlonglongrightarrow> 1 / 100000 \<and>
   (exploring r1 \<and> exploring r1' \<longrightarrow> getAction Q r1 r2 st = getAction Q' r1' r2 st')"
proof (intro conjI impI)
  assume "draw r1"
  then have "0 \<le> r1" "r1 < 1" by (simp_all add: draw_def)
  then show "exploring r1 \<longleftrightarrow> r1 = 0 \<or> between (9 / 10) (90001 / 100000) r1"
    by (rule exploring_iff)
next
  show "frequency exploring \<longlonglongrightarrow> 1 / 100000"
    by (rule frequency_exploring)
next
  assume "exploring r1 \<and> exploring r1'"
  then show "getAction Q r1 r2 st = getAction Q' r1' r2 st'"
    by (simp add: getAction_exploring)
qed

theorem C3_exploration_override_witness:
  "draw (90001 / 100000) \<and> exploring (90001 / 100000) \<and> exploring 0 \<and>
   between (9 / 10) (90001 / 100000) (90001 / 100000) \<and>
   frequency exploring \<longlonglongrightarrow> 1 / 100000 \<and>
   getAction Map.empty (90001 / 100000) (1 / 2) st3 =
     getAction [qconfig st1 JUMP \<mapsto> 5] 0 (1 / 2) st1"
proof -
  have d: "draw (90001 / 100000)" "between (9 / 10) (90001 / 100000) (90001 / 100000)"
    by (simp_all add: draw_def between_def)
  have z: "exploring 0"
    by (simp add: exploring_def takeRandomDecision_def)
  note c = C3_exploration_override [of "90001 / 100000" 0 Map.empty "1 / 2" st3
      "[qconfig st1 JUMP \<mapsto> 5]" st1]
  from c d have e: "exploring (90001 / 100000)" by blast
  with c d z show ?thesis by blast
qed

text \<open>
  Claim C3 as stated fails: the long-run frequency of the override is 1/100000, less
  than a tenth of 1/9000, and inside the override the test
  \<open>(Math.random() * 100) % 4 == 0\<close> holds only for the draws whose hundredfold is
  a whole multiple of 4, so that Jump has the long-run frequency 0, not 1/4.
\<close>

theorem C3_counterexample:
  "frequency exploring \<longlonglongrightarrow> 1 / 100000 \<and>
   \<not> frequency exploring \<longlonglongrightarrow> 1 / 9000 \<and>
   (1 / 100000 :: real) * 10 < 1 / 9000 \<and>
   frequency override_jumps \<longlonglongrightarrow> 0 \<and>
   \<not> frequency override_jumps \<longlonglongrightarrow> 1 / 4"
proof -
  have "\<not> frequency exploring \<longlonglongrightarrow> 1 / 9000"
  proof
    assume "frequency exploring \<longlonglongrightarrow> 1 / 9000"
    from LIMSEQ_unique [OF this frequency_exploring] show False by simp
  qed
  moreover have "\<not> frequency override_jumps \<longlonglongrightarrow> 1 / 4"
  proof
    assume "frequency override_jumps \<longlonglongrightarrow> 1 / 4"
    from LIMSEQ_unique [OF this frequency_override_jumps] show False by simp
  qed
  ultimately show ?thesis
    using frequency_exploring frequency_override_jumps by simp
qed

section \<open>Properties of the calls of rewardTheBird\<close>

lemma played_reachable: "played g \<Longrightarrow> reachable g"
  by (induction rule: played.induct) (auto intro: reachable.intros)

lemma nextStep_buffer:
  assumes "gameState g = GAME"
  shows "\<exists>g1. nextStep r1 r2 g = Inr g1 \<and> gameState g1 = GAME \<and> tubes g1 = tubes g \<and>
           score g1 = score g \<and>
           targetTubeIndex g1 = Some (int (target_index_of g)) \<and>
           length (frameBuffer g1) =
             (if flips g then min 5 (length (frameBuffer g) - 1) else length (frameBuffer g)) +
             (if 28 < tube_x (target_of g) - birdX then 0 else 1)"
proof (cases "birdX < tube_x (fst (tubes g)) + 3 \<and>
         (tube_x (fst (tubes g)) < tube_x (snd (tubes g)) \<or>
          tube_x (snd (tubes g)) + 3 < birdX)")
  case True
  then have k: "target_index_of g = 0" "target_of g = fst (tubes g)"
    by (simp_all add: target_index_of_def target_of_def)
  show ?thesis
  proof (cases "targetTubeIndex g = Some 1")
    case flip: True
    then have f: "flips g" using assms k by (simp add: flips_def)
    show ?thesis
      unfolding k nextStep_def if_P [OF True] if_P [OF flip] if_P [OF f] using assms
      by (simp add: rewardTheBird_total Let_def)
  next
    case noflip: False
    then have f: "\<not> flips g" using k by (simp add: flips_def)
    show ?thesis
      unfolding k nextStep_def if_P [OF True] if_not_P [OF noflip] if_not_P [OF f] using assms
      by (simp add: Let_def)
  qed
next
  case False
  then have k: "target_index_of g = 1" "target_of g = snd (tubes g)"
    by (auto simp: target_index_of_def target_of_def)
  show ?thesis
  proof (cases "targetTubeIndex g = Some 0")
    case flip: True
    then have f: "flips g" using assms k by (simp add: flips_def)
    show ?thesis
      unfolding k nextStep_def if_not_P [OF False] if_P [OF flip] if_P [OF f] using assms
      by (simp add: rewardTheBird_total Let_def)
  next
    case noflip: False
    then have f: "\<not> flips g" using k by (simp add: flips_def)
    show ?thesis
      unfolding k nextStep_def if_not_P [OF False] if_not_P [OF noflip] if_not_P [OF f] using assms
      by (simp add: Let_def)
  qed
qed

lemma renderTubes_more:
  "frameBuffer (renderTubes r0 r1 g) = frameBuffer g \<and>
   score (renderTubes r0 r1 g) = score g \<and>
   activeTube (renderTubes r0 r1 g) =
     Some (if tube_x (fst (tubes g)) < tube_x (snd (tubes g)) then 0 else 1)"
  by (simp add: renderTubes_def Let_def)

lemma updateBirdGame_more:
  "frameBuffer (updateBirdGame g) = frameBuffer g \<and> score (updateBirdGame g) = score g"
  by (simp add: updateBirdGame_def Let_def)

lemma checkCollision_quiet:
  assumes "activeTube g = Some k"
  shows "checkCollision False g =
           Inr (if birdX = tube_x (if k = 0 then fst (tubes g) else snd (tubes g)) + 6
                then g\<lparr>score := score g + 1\<rparr> else g)"
  using assms by (simp add: checkCollision_def Let_def)

lemma renderGame_quiet:
  assumes "\<not> collided inp"
  shows "\<exists>g2. renderGame inp g = Inr g2 \<and> frameBuffer g2 = frameBuffer g \<and>
           gameState g2 = gameState g \<and> targetTubeIndex g2 = targetTubeIndex g \<and>
           tube_x (fst (tubes g2)) =
             (if tube_x (fst (tubes g)) - 1 \<le> - 6 then 32 else tube_x (fst (tubes g)) - 1) \<and>
           tube_x (snd (tubes g2)) =
             (if tube_x (snd (tubes g)) - 1 \<le> - 6 then 32 else tube_x (snd (tubes g)) - 1) \<and>
           (score g2 = score g \<or>
            birdX = (if tube_x (fst (tubes g)) < tube_x (snd (tubes g))
                     then tube_x (fst (tubes g2)) else tube_x (snd (tubes g2))) + 6)"
proof -
  define G1 where "G1 = updateBirdGame (renderTubes (rnd_tube0 inp) (rnd_tube1 inp) g)"
  define k :: nat where "k = (if tube_x (fst (tubes g)) < tube_x (snd (tubes g)) then 0 else 1)"
  have a: "activeTube G1 = Some k"
    unfolding G1_def k_def
    using renderTubes_more [of "rnd_tube0 inp" "rnd_tube1 inp" g]
      updateBirdGame_frame [of "renderTubes (rnd_tube0 inp) (rnd_tube1 inp) g"]
    by simp
  have f: "frameBuffer G1 = frameBuffer g" "score G1 = score g"
    "gameState G1 = gameState g" "targetTubeIndex G1 = targetTubeIndex g"
    "tube_x (fst (tubes G1)) =
       (if tube_x (fst (tubes g)) - 1 \<le> - 6 then 32 else tube_x (fst (tubes g)) - 1)"
    "tube_x (snd (tubes G1)) =
       (if tube_x (snd (tubes g)) - 1 \<le> - 6 then 32 else tube_x (snd (tubes g)) - 1)"
    unfolding G1_def
    using renderTubes_more [of "rnd_tube0 inp" "rnd_tube1 inp" g]
      renderTubes_frame [of "rnd_tube0 inp" "rnd_tube1 inp" g]
      updateBirdGame_frame [of "renderTubes (rnd_tube0 inp) (rnd_tube1 inp) g"]
      updateBirdGame_more [of "renderTubes (rnd_tube0 inp) (rnd_tube1 inp) g"]
    by simp_all
  have r: "renderGame inp g =
      Inr (if birdX = tube_x (if k = 0 then fst (tubes G1) else snd (tubes G1)) + 6
           then G1\<lparr>score := score G1 + 1\<rparr> else G1)"
    unfolding renderGame_def using assms checkCollision_quiet [OF a] by (simp add: G1_def)
  have sel: "tube_x (if k = 0 then fst (tubes G1) else snd (tubes G1)) =
      (if tube_x (fst (tubes g)) < tube_x (snd (tubes g))
       then tube_x (fst (tubes G1)) else tube_x (snd (tubes G1)))"
    by (simp add: k_def)
  show ?thesis
  proof (cases "birdX = tube_x (if k = 0 then fst (tubes G1) else snd (tubes G1)) + 6")
    case True
    then have res: "renderGame inp g = Inr (G1\<lparr>score := score G1 + 1\<rparr>)"
      using r by simp
    have hit: "birdX = (if tube_x (fst (tubes g)) < tube_x (snd (tubes g))
          then tube_x (fst (tubes (G1\<lparr>score := score G1 + 1\<rparr>)))
          else tube_x (snd (tubes (G1\<lparr>score := score G1 + 1\<rparr>)))) + 6"
      using True unfolding sel by (auto split: if_splits)
    show ?thesis
    proof (intro exI conjI)
      show "renderGame inp g = Inr (G1\<lparr>score := score G1 + 1\<rparr>)" by (rule res)
      show "score (G1\<lparr>score := score G1 + 1\<rparr>) = score g \<or>
            birdX = (if tube_x (fst (tubes g)) < tube_x (snd (tubes g))
              then tube_x (fst (tubes (G1\<lparr>score := score G1 + 1\<rparr>)))
              else tube_x (snd (tubes (G1\<lparr>score := score G1 + 1\<rparr>)))) + 6"
        using hit by (rule disjI2)
    qed (use f in simp_all)
  next
    case False
    then have "renderGame inp g = Inr G1"
      using r by simp
    then show ?thesis
      using f by simp
  qed
qed

lemma flip_not_far:
  assumes "game_inv g" "flips g"
  shows "\<not> 28 < tube_x (target_of g) - birdX"
proof
  assume "28 < tube_x (target_of g) - birdX"
  from far_target [OF assms(1) this] assms(2) show False
    by (simp add: flips_def)
qed

lemma pre_approach_step:
  assumes "pre_approach g" "gameState g = GAME"
  shows "(3 \<le> tube_x (fst (tubes g)) \<longrightarrow>
            target_index_of g = 0 \<and> target_of g = fst (tubes g) \<and> \<not> flips g) \<and>
         (tube_x (fst (tubes g)) = 2 \<longrightarrow>
            target_index_of g = 1 \<and> \<not> 28 < tube_x (target_of g) - birdX \<and>
            31 \<le> length (frameBuffer g))"
  using assms
  by (auto simp: pre_approach_def target_index_of_def target_of_def flips_def birdX_def)

lemma after_nextStep_six:
  assumes inv: "game_inv g" "buffer_inv g" and st: "gameState g = GAME"
    and g1: "nextStep r1 r2 g = Inr g1"
  shows "6 \<le> length (frameBuffer g1) \<or>
         (pre_approach g \<and> 3 \<le> tube_x (fst (tubes g)) \<and>
          34 - tube_x (fst (tubes g)) \<le> int (length (frameBuffer g1)) \<and>
          score g1 = 0 \<and> tubes g1 = tubes g \<and> targetTubeIndex g1 = Some 0)"
proof -
  from nextStep_buffer [OF st, of r1 r2] g1
  have n: "tubes g1 = tubes g" "score g1 = score g"
    "targetTubeIndex g1 = Some (int (target_index_of g))"
    "length (frameBuffer g1) =
       (if flips g then min 5 (length (frameBuffer g) - 1) else length (frameBuffer g)) +
       (if 28 < tube_x (target_of g) - birdX then 0 else 1)"
    by auto
  from inv(2) st have "6 \<le> length (frameBuffer g) \<or> pre_approach g"
    by (simp add: buffer_inv_def)
  then show ?thesis
  proof
    assume six: "6 \<le> length (frameBuffer g)"
    show ?thesis
    proof (cases "flips g")
      case True
      with flip_not_far [OF inv(1) True] n(4) six show ?thesis by simp
    next
      case False
      with n(4) six show ?thesis by simp
    qed
  next
    assume pre: "pre_approach g"
    then have x2: "2 \<le> tube_x (fst (tubes g))" by (simp add: pre_approach_def)
    show ?thesis
    proof (cases "3 \<le> tube_x (fst (tubes g))")
      case True
      with pre_approach_step [OF pre st]
      have k: "target_index_of g = 0" "target_of g = fst (tubes g)" "\<not> flips g" by simp_all
      have "33 - tube_x (fst (tubes g)) \<le> int (length (frameBuffer g))" "score g = 0"
        using pre by (simp_all add: pre_approach_def)
      then have "34 - tube_x (fst (tubes g)) \<le> int (length (frameBuffer g1))" "score g1 = 0"
        using n(2,4) k by (simp_all add: birdX_def)
      with pre True n(1,3) k(1) show ?thesis by simp
    next
      case False
      with x2 have "tube_x (fst (tubes g)) = 2" by simp
      with pre_approach_step [OF pre st]
      have "\<not> 28 < tube_x (target_of g) - birdX" "31 \<le> length (frameBuffer g)" by simp_all
      with n(4) show ?thesis by (simp split: if_splits)
    qed
  qed
qed

lemma buffer_inv_tick:
  assumes inv: "game_inv g" "buffer_inv g"
    and ok: "gameState g = GAME \<and> collided inp \<longrightarrow> may_collide inp g"
    and l: "loop inp g = Inr g'"
  shows "buffer_inv g'"
proof (cases "gameState g")
  case HOME
  with inv(2) l show ?thesis by (simp add: loop_def)
next
  case HI_SCORE
  with inv(1) show ?thesis by (simp add: game_inv_def)
next
  case GAME_OVER
  then have idx: "targetTubeIndex g = Some (- 1)"
    using inv(1) by (simp add: game_inv_def)
  have "pre_approach g'"
    using l GAME_OVER idx
    by (auto simp: loop_def startGame_def renderGameOver_def js_round_def pre_approach_def)
  then show ?thesis by (simp add: buffer_inv_def)
next
  case GAME
  from nextStep_game [OF GAME] obtain g1 where
    g1: "nextStep (rnd_explore inp) (rnd_jump inp) g = Inr g1" "gameState g1 = GAME"
    by blast
  show ?thesis
  proof (cases "collided inp")
    case True
    from renderGame_frame [of inp g1] True obtain g2 where
      "renderGame inp g1 = Inr g2" "gameState g2 = GAME_OVER"
      by auto
    with l GAME g1 have "gameState g' = GAME_OVER"
      by (simp add: loop_def)
    then show ?thesis by (simp add: buffer_inv_def)
  next
    case False
    from renderGame_quiet [OF False, of g1] obtain g2 where g2:
      "renderGame inp g1 = Inr g2" "frameBuffer g2 = frameBuffer g1"
      "gameState g2 = gameState g1" "targetTubeIndex g2 = targetTubeIndex g1"
      "tube_x (fst (tubes g2)) =
         (if tube_x (fst (tubes g1)) - 1 \<le> - 6 then 32 else tube_x (fst (tubes g1)) - 1)"
      "tube_x (snd (tubes g2)) =
         (if tube_x (snd (tubes g1)) - 1 \<le> - 6 then 32 else tube_x (snd (tubes g1)) - 1)"
      "score g2 = score g1 \<or>
       birdX = (if tube_x (fst (tubes g1)) < tube_x (snd (tubes g1))
                then tube_x (fst (tubes g2)) else tube_x (snd (tubes g2))) + 6"
      by blast
    have eq: "g' = g2"
      using l GAME g1(1) g2(1) by (simp add: loop_def)
    from after_nextStep_six [OF inv GAME g1(1)]
    show ?thesis
    proof
      assume "6 \<le> length (frameBuffer g1)"
      then show ?thesis
        unfolding eq buffer_inv_def using g2(2) by simp
    next
      assume p: "pre_approach g \<and> 3 \<le> tube_x (fst (tubes g)) \<and>
          34 - tube_x (fst (tubes g)) \<le> int (length (frameBuffer g1)) \<and>
          score g1 = 0 \<and> tubes g1 = tubes g \<and> targetTubeIndex g1 = Some 0"
      then have t: "tube_x (snd (tubes g1)) = tube_x (fst (tubes g1)) + 19"
        "3 \<le> tube_x (fst (tubes g1))"
        by (simp_all add: pre_approach_def)
      have x0: "tube_x (fst (tubes g2)) = tube_x (fst (tubes g1)) - 1"
        and x1: "tube_x (snd (tubes g2)) = tube_x (snd (tubes g1)) - 1"
        using g2(5,6) t by simp_all
      have sc: "score g2 = 0"
        using g2(7) p t x0 by (auto simp: birdX_def)
      have "pre_approach g2"
        unfolding pre_approach_def using x0 x1 t sc g2(2,4) p by simp
      then show ?thesis
        unfolding eq buffer_inv_def by simp
    qed
  qed
qed

lemma buffer_inv_init: "buffer_inv initGame"
  by (simp add: buffer_inv_def pre_approach_def initGame_def startGame_def js_round_def)

lemma buffer_inv_key:
  assumes "game_inv g" "buffer_inv g"
  shows "buffer_inv (handleUserInteraction r0 r1 g)"
proof (cases "gameState g")
  case HI_SCORE
  with assms(1) show ?thesis by (simp add: game_inv_def)
qed (use assms(2) in \<open>auto simp: handleUserInteraction_def buffer_inv_def pre_approach_def\<close>)

text \<open>
  The invariant holds in every played state; so every call of \<open>rewardTheBird\<close>,
  on a flip or after a collision, finds six entries or more in the buffer.
\<close>

lemma played_inv: "played g \<Longrightarrow> game_inv g \<and> buffer_inv g"
proof (induction rule: played.induct)
  case played_init
  show ?case by (simp add: game_inv_init buffer_inv_init)
next
  case (played_tick g inp g')
  then show ?case
    using game_inv_tick buffer_inv_tick by blast
next
  case (played_key g r0 r1)
  then show ?case
    using game_inv_key buffer_inv_key by blast
next
  case (played_env g curEnv)
  then show ?case
    by (simp add: game_inv_def buffer_inv_def pre_approach_def environmentChange_def)
next
  case (played_model g Q)
  then show ?case
    by (simp add: game_inv_def buffer_inv_def pre_approach_def)
qed

lemma flip_call_six:
  assumes "played g" "flips g"
  shows "6 \<le> length (frameBuffer g)"
proof -
  from played_inv [OF assms(1)] have inv: "game_inv g" "buffer_inv g" by simp_all
  from assms(2) have st: "gameState g = GAME" by (simp add: flips_def)
  with inv(2) have "6 \<le> length (frameBuffer g) \<or> pre_approach g"
    by (simp add: buffer_inv_def)
  then show ?thesis
  proof
    assume pre: "pre_approach g"
    then have x2: "2 \<le> tube_x (fst (tubes g))" by (simp add: pre_approach_def)
    show ?thesis
    proof (cases "3 \<le> tube_x (fst (tubes g))")
      case True
      with pre_approach_step [OF pre st] assms(2) show ?thesis by simp
    next
      case False
      with x2 have "tube_x (fst (tubes g)) = 2" by simp
      with pre_approach_step [OF pre st] show ?thesis by simp
    qed
  qed
qed

lemma collision_call_six:
  assumes "played g" "gameState g = GAME" "collided inp" "may_collide inp g"
  shows "\<exists>g1. nextStep (rnd_explore inp) (rnd_jump inp) g = Inr g1 \<and>
           6 \<le> length (frameBuffer g1)"
proof -
  from played_inv [OF assms(1)] have inv: "game_inv g" "buffer_inv g" by simp_all
  from nextStep_game [OF assms(2)] obtain g1 where
    g1: "nextStep (rnd_explore inp) (rnd_jump inp) g = Inr g1"
    by blast
  with assms(4) have cc: "can_collide (renderTubes (rnd_tube0 inp) (rnd_tube1 inp) g1)"
    by (simp add: may_collide_def)
  from after_nextStep_six [OF inv assms(2) g1]
  have "6 \<le> length (frameBuffer g1)"
  proof
    assume p: "pre_approach g \<and> 3 \<le> tube_x (fst (tubes g)) \<and>
          34 - tube_x (fst (tubes g)) \<le> int (length (frameBuffer g1)) \<and>
          score g1 = 0 \<and> tubes g1 = tubes g \<and> targetTubeIndex g1 = Some 0"
    then have t: "tube_x (snd (tubes g1)) = tube_x (fst (tubes g1)) + 19"
      "3 \<le> tube_x (fst (tubes g1))" "score g1 = 0"
      by (simp_all add: pre_approach_def)
    have "tube_x (fst (tubes g1)) \<le> 10"
      using cc t renderTubes_frame [of "rnd_tube0 inp" "rnd_tube1 inp" g1]
        renderTubes_more [of "rnd_tube0 inp" "rnd_tube1 inp" g1]
      by (auto simp: can_collide_def split: if_splits)
    with p show ?thesis by simp
  qed
  with g1 show ?thesis by blast
qed

text \<open>The concrete run.\<close>

lemma nextStep_no_flip:
  assumes "gameState g = GAME" "\<not> flips g"
  shows "\<exists>g1. nextStep r1 r2 g = Inr g1 \<and> Q_table g1 = Q_table g \<and>
           (frameBuffer g1 = frameBuffer g \<or> (\<exists>f. frameBuffer g1 = frameBuffer g @ [f]))"
proof (cases "birdX < tube_x (fst (tubes g)) + 3 \<and>
         (tube_x (fst (tubes g)) < tube_x (snd (tubes g)) \<or>
          tube_x (snd (tubes g)) + 3 < birdX)")
  case True
  then have "target_index_of g = 0" by (simp add: target_index_of_def)
  with assms have noflip: "targetTubeIndex g \<noteq> Some 1" by (simp add: flips_def)
  show ?thesis
    unfolding nextStep_def if_P [OF True] if_not_P [OF noflip] using assms(1)
    by (simp add: Let_def)
next
  case False
  then have "target_index_of g = 1" by (auto simp: target_index_of_def)
  with assms have noflip: "targetTubeIndex g \<noteq> Some 0" by (simp add: flips_def)
  show ?thesis
    unfolding nextStep_def if_not_P [OF False] if_not_P [OF noflip] using assms(1)
    by (simp add: Let_def)
qed

lemma tick_without_call:
  assumes "gameState g = GAME" "\<not> flips g" "\<not> collided inp"
  shows "\<exists>g'. loop inp g = Inr g' \<and>
           (frameBuffer g' = frameBuffer g \<or> (\<exists>f. frameBuffer g' = frameBuffer g @ [f]))"
proof -
  from nextStep_no_flip [OF assms(1,2)] obtain g1 where g1:
    "nextStep (rnd_explore inp) (rnd_jump inp) g = Inr g1"
    "frameBuffer g1 = frameBuffer g \<or> (\<exists>f. frameBuffer g1 = frameBuffer g @ [f])"
    by blast
  from renderGame_quiet [OF assms(3), of g1] obtain g2 where
    "renderGame inp g1 = Inr g2" "frameBuffer g2 = frameBuffer g1"
    by blast
  with g1 assms(1) show ?thesis
    by (simp add: loop_def)
qed

lemma played_quiet_tick:
  assumes "played g"
  shows "played (quiet_tick g)"
proof -
  from loop_total obtain g' where g': "loop quiet g = Inr g'" by blast
  have "played g'"
    by (rule played_tick [OF assms _ _ _ _ _ g']) (simp_all add: quiet_def draw_def)
  with g' show ?thesis by (simp add: quiet_tick_def)
qed

lemma played_ticks: "played g \<Longrightarrow> played (ticks n g)"
  by (induction n) (simp_all add: played_quiet_tick)

lemma quiet_tick_approach:
  assumes "gameState g = GAME" "3 \<le> tube_x (fst (tubes g))"
    "tube_x (snd (tubes g)) = tube_x (fst (tubes g)) + 19"
  shows "gameState (quiet_tick g) = GAME \<and>
         tube_x (fst (tubes (quiet_tick g))) = tube_x (fst (tubes g)) - 1 \<and>
         tube_x (snd (tubes (quiet_tick g))) = tube_x (snd (tubes g)) - 1 \<and>
         targetTubeIndex (quiet_tick g) = Some 0"
proof -
  have k: "target_index_of g = 0"
    using assms(2,3) by (simp add: target_index_of_def birdX_def)
  from nextStep_game [OF assms(1), of "rnd_explore quiet" "rnd_jump quiet"] obtain g1 where g1:
    "nextStep (rnd_explore quiet) (rnd_jump quiet) g = Inr g1" "gameState g1 = GAME"
    "tubes g1 = tubes g" "targetTubeIndex g1 = Some (int (target_index_of g))"
    by blast
  have nc: "\<not> collided quiet" by (simp add: quiet_def)
  from renderGame_quiet [OF nc, of g1] obtain g2 where g2:
    "renderGame quiet g1 = Inr g2" "gameState g2 = gameState g1"
    "targetTubeIndex g2 = targetTubeIndex g1"
    "tube_x (fst (tubes g2)) =
       (if tube_x (fst (tubes g1)) - 1 \<le> - 6 then 32 else tube_x (fst (tubes g1)) - 1)"
    "tube_x (snd (tubes g2)) =
       (if tube_x (snd (tubes g1)) - 1 \<le> - 6 then 32 else tube_x (snd (tubes g1)) - 1)"
    by blast
  have "quiet_tick g = g2"
    using assms(1) g1(1) g2(1) by (simp add: quiet_tick_def loop_def)
  then show ?thesis
    using g1(2-) g2(2-) k assms(2,3) by simp
qed

lemma ticks_started:
  "n \<le> 46 \<Longrightarrow>
   gameState (ticks n started) = GAME \<and>
   tube_x (fst (tubes (ticks n started))) = 48 - int n \<and>
   tube_x (snd (tubes (ticks n started))) = 67 - int n \<and>
   (0 < n \<longrightarrow> targetTubeIndex (ticks n started) = Some 0)"
proof (induction n)
  case 0
  show ?case
    by (simp add: started_def handleUserInteraction_def initGame_def startGame_def js_round_def)
next
  case (Suc n)
  then have ih: "gameState (ticks n started) = GAME"
    "tube_x (fst (tubes (ticks n started))) = 48 - int n"
    "tube_x (snd (tubes (ticks n started))) = 67 - int n"
    by simp_all
  have "3 \<le> tube_x (fst (tubes (ticks n started)))"
    "tube_x (snd (tubes (ticks n started))) = tube_x (fst (tubes (ticks n started))) + 19"
    using ih Suc.prems by simp_all
  from quiet_tick_approach [OF ih(1) this] ih show ?case
    by simp
qed

lemma approach_state:
  "played approach" "gameState approach = GAME" "tube_x (fst (tubes approach)) = 2"
  "tube_x (snd (tubes approach)) = 21" "targetTubeIndex approach = Some 0"
proof -
  have "played started"
    unfolding started_def by (rule played_key [OF played_init]) (simp_all add: draw_def)
  then show "played approach"
    unfolding approach_def by (rule played_ticks)
  show "gameState approach = GAME" "tube_x (fst (tubes approach)) = 2"
    "tube_x (snd (tubes approach)) = 21" "targetTubeIndex approach = Some 0"
    unfolding approach_def using ticks_started [of 46] by simp_all
qed

text \<open>
  Claim C4. In every state that the page reaches while it is played, a call of
  \<open>rewardTheBird\<close> finds at least six entries in the buffer: on a flip of the
  target index the buffer of the state \<open>nextStep\<close> starts in, on a collision the
  buffer of the state that \<open>checkCollision\<close> receives (the one \<open>nextStep\<close>,
  \<open>renderTubes\<close> and \<open>updateBirdGame\<close> leave). Called on a buffer of six
  entries or more, \<open>rewardTheBird\<close> returns, retains exactly the final five entries
  and resets the step counter to 0. For every buffer whatsoever it returns with the
  counter at 0 and a buffer of at most five entries that is not longer than
  \<open>max(original length, 5)\<close>. (On a buffer of one to five entries, which no call
  of the game passes, the slice would drop the oldest entry:
  \<open>rewardTheBird_five_entries\<close>.)
\<close>

theorem C4_trim_to_five:
  assumes "played g"
    and "gameState g = GAME \<and> collided inp \<longrightarrow> may_collide inp g"
  shows "(flips g \<longrightarrow> 6 \<le> length (frameBuffer g)) \<and>
         (gameState g = GAME \<and> collided inp \<longrightarrow>
            (\<exists>g1. nextStep (rnd_explore inp) (rnd_jump inp) g = Inr g1 \<and>
                  6 \<le> length (frameBuffer
                         (updateBirdGame (renderTubes (rnd_tube0 inp) (rnd_tube1 inp) g1))))) \<and>
         (6 \<le> length (frameBuffer w) \<longrightarrow>
            (\<exists>w'. rewardTheBird reward wasSuccessful w = Inr w' \<and>
                  frameBuffer w' = drop (length (frameBuffer w) - 5) (frameBuffer w) \<and>
                  length (frameBuffer w') = 5 \<and>
                  episodeFrameCount w' = 0)) \<and>
         (\<exists>w'. rewardTheBird reward wasSuccessful w = Inr w' \<and>
               length (frameBuffer w') \<le> max (length (frameBuffer w)) 5 \<and>
               length (frameBuffer w') \<le> 5 \<and>
               episodeFrameCount w' = 0)"
proof (intro conjI impI)
  assume "flips g"
  with assms(1) show "6 \<le> length (frameBuffer g)" by (rule flip_call_six)
next
  assume c: "gameState g = GAME \<and> collided inp"
  with assms(2) have "may_collide inp g" by simp
  with c assms(1) have "\<exists>g1. nextStep (rnd_explore inp) (rnd_jump inp) g = Inr g1 \<and>
      6 \<le> length (frameBuffer g1)"
    by (intro collision_call_six) simp_all
  then show "\<exists>g1. nextStep (rnd_explore inp) (rnd_jump inp) g = Inr g1 \<and>
      6 \<le> length (frameBuffer
             (updateBirdGame (renderTubes (rnd_tube0 inp) (rnd_tube1 inp) g1)))"
    by (simp add: updateBirdGame_more renderTubes_more)
next
  assume six: "6 \<le> length (frameBuffer w)"
  then have "max (length (frameBuffer w) - 5) 1 = length (frameBuffer w) - 5" by simp
  with six rewardTheBird_trim [of reward wasSuccessful w]
  show "\<exists>w'. rewardTheBird reward wasSuccessful w = Inr w' \<and>
      frameBuffer w' = drop (length (frameBuffer w) - 5) (frameBuffer w) \<and>
      length (frameBuffer w') = 5 \<and> episodeFrameCount w' = 0"
    by auto
next
  from rewardTheBird_trim [of reward wasSuccessful w]
  show "\<exists>w'. rewardTheBird reward wasSuccessful w = Inr w' \<and>
      length (frameBuffer w') \<le> max (length (frameBuffer w)) 5 \<and>
      length (frameBuffer w') \<le> 5 \<and> episodeFrameCount w' = 0"
    by blast
qed

theorem C4_trim_to_five_witness:
  "played approach \<and> flips approach \<and> gameState approach = GAME \<and> collided crash \<and>
   may_collide crash approach \<and>
   6 \<le> length (frameBuffer approach) \<and>
   (\<exists>g1. nextStep (rnd_explore crash) (rnd_jump crash) approach = Inr g1 \<and>
         6 \<le> length (frameBuffer
                (updateBirdGame (renderTubes (rnd_tube0 crash) (rnd_tube1 crash) g1)))) \<and>
   6 \<le> length (frameBuffer agent6) \<and>
   (\<exists>w'. rewardTheBird 5 True agent6 = Inr w' \<and>
         frameBuffer w' =
           [\<lparr>env = st2, action = JUMP\<rparr>, \<lparr>env = st3, action = STAY\<rparr>,
            \<lparr>env = st1, action = JUMP\<rparr>, \<lparr>env = st2, action = STAY\<rparr>,
            \<lparr>env = st3, action = JUMP\<rparr>] \<and>
         length (frameBuffer w') = 5 \<and> episodeFrameCount w' = 0)"
proof -
  note a = approach_state
  have fl: "flips approach"
    using a(2-) by (simp add: flips_def target_index_of_def birdX_def)
  have cr: "collided crash" by (simp add: crash_def)
  from nextStep_game [OF a(2), of "rnd_explore crash" "rnd_jump crash"] obtain g1 where
    g1: "nextStep (rnd_explore crash) (rnd_jump crash) approach = Inr g1"
    "tubes g1 = tubes approach"
    by blast
  have "can_collide (renderTubes (rnd_tube0 crash) (rnd_tube1 crash) g1)"
    using renderTubes_frame [of "rnd_tube0 crash" "rnd_tube1 crash" g1] g1(2) a(3)
    by (simp add: can_collide_def)
  then have mc: "may_collide crash approach"
    using g1(1) by (simp add: may_collide_def)
  then have h: "gameState approach = GAME \<and> collided crash \<longrightarrow> may_collide crash approach"
    by simp
  have six: "6 \<le> length (frameBuffer agent6)"
    by (simp add: agent6_def)
  note c = C4_trim_to_five [OF a(1) h, of agent6 5 True]
  from c fl have "6 \<le> length (frameBuffer approach)" by blast
  moreover from c a(2) cr
  have "\<exists>g1. nextStep (rnd_explore crash) (rnd_jump crash) approach = Inr g1 \<and>
      6 \<le> length (frameBuffer
             (updateBirdGame (renderTubes (rnd_tube0 crash) (rnd_tube1 crash) g1)))"
    by blast
  moreover from c six
  have "\<exists>w'. rewardTheBird 5 True agent6 = Inr w' \<and>
      frameBuffer w' = drop (length (frameBuffer agent6) - 5) (frameBuffer agent6) \<and>
      length (frameBuffer w') = 5 \<and> episodeFrameCount w' = 0"
    by blast
  then have "\<exists>w'. rewardTheBird 5 True agent6 = Inr w' \<and>
         frameBuffer w' =
           [\<lparr>env = st2, action = JUMP\<rparr>, \<lparr>env = st3, action = STAY\<rparr>,
            \<lparr>env = st1, action = JUMP\<rparr>, \<lparr>env = st2, action = STAY\<rparr>,
            \<lparr>env = st3, action = JUMP\<rparr>] \<and>
         length (frameBuffer w') = 5 \<and> episodeFrameCount w' = 0"
    by (simp add: agent6_def)
  ultimately show ?thesis
    using a(1,2) fl cr mc six by blast
qed

section \<open>Properties of loadModel\<close>

lemma loadModel_after_saveModel:
  assumes "parse_text (stringify (model p)) = Inr v"
  shows "loadModel parse_text (saveModel stringify p) =
           Inr (p\<lparr>model := v,
                  localStorage := (localStorage p)(''flappybird-qtable'' \<mapsto> stringify (model p)),
                  alerts := alerts p @ [''Model was saved successfully!'',
                                        ''Model was loaded successfully!'']\<rparr>)"
  using assms by (simp add: loadModel_def saveModel_def JSON_parse_def)

lemma loadModel_malformed:
  assumes "localStorage p ''flappybird-qtable'' = Some text" "parse_text text = Inl e"
  shows "loadModel parse_text p = Inl e" "loadModel_2 parse_text p = Inl e"
  using assms by (simp_all add: loadModel_def loadModel_2_def JSON_parse_def)

text \<open>
  Claim C8 with nothing stored: the definition of \<open>loadModel\<close> without the test
  replaces the table by \<open>null\<close> and reports success, whatever the parser is; the
  definition with the test leaves the table as it is and reports that no saved model
  was found.
\<close>

theorem C8_unguarded_load_overwrites:
  "loadModel_2 parse_text fresh_page =
     Inr \<lparr>model = JSNull, localStorage = Map.empty,
          alerts = [''Model was loaded successfully!'']\<rparr> \<and>
   loadModel parse_text fresh_page =
     Inr \<lparr>model = JSTable [qconfig st1 STAY \<mapsto> 332 / 1000], localStorage = Map.empty,
          alerts = [''No saved model found in local storage'']\<rparr>"
  by (simp add: loadModel_2_def loadModel_def JSON_parse_def fresh_page_def)

section \<open>Properties of the JSON text and of the round trip\<close>





























end
